theory Spec2Isabelle
  imports Complex_Main "HOL-Library.Sublist"
begin

section \<open>Step model\<close>

text \<open>
  A workflow of \<^verbatim>\<open>automation.py\<close> is a Python list of dictionaries, each tagged by its
  \<^verbatim>\<open>"type"\<close> key. The five tags become the constructors of one datatype; the fields are
  the dictionary's keys in the order the dialogs write them. Actions stay strings, as the
  code compares them with string literals. Delays are Python floats, modelled as reals
  (seconds); NaN and the infinities are outside the model.
\<close>

datatype step =
    Mouse string int int real
  | Keyboard string string real
  | Image string real
  | ConditionalRecord string "cond_case list" "step list" real
  | Loop int "step list" real
and cond_case =
    Case string "step list"

fun delay_of :: "step \<Rightarrow> real" where
  "delay_of (Mouse a x y d) = d"
| "delay_of (Keyboard a v d) = d"
| "delay_of (Image p d) = d"
| "delay_of (ConditionalRecord src cs es d) = d"
| "delay_of (Loop n body d) = d"

fun case_value :: "cond_case \<Rightarrow> string" where
  "case_value (Case v sts) = v"

fun case_steps :: "cond_case \<Rightarrow> step list" where
  "case_steps (Case v sts) = sts"

section \<open>Recorder: post-processing pass of \<^verbatim>\<open>record_mouse_keyboard_session\<close>\<close>

text \<open>
  The test of the merging loop:
  \<^verbatim>\<open>step["type"] == "keyboard" and step["action"] == "Type Text" and len(step["value"]) == 1\<close>.
\<close>

fun is_single_char :: "step \<Rightarrow> bool" where
  "is_single_char (Keyboard a v d) = (a = ''Type Text'' \<and> length v = 1)"
| "is_single_char _ = False"

fun value_of :: "step \<Rightarrow> string" where
  "value_of (Keyboard a v d) = v"
| "value_of _ = []"

text \<open>
  The \<^verbatim>\<open>for step in rec\<close> loop with its three variables \<^verbatim>\<open>merged\<close>,
  \<^verbatim>\<open>buffer_text\<close>, \<^verbatim>\<open>buffer_delay\<close>; the empty list is the end of the loop, where the
  remaining buffer is appended.
\<close>

fun merge_loop :: "step list \<Rightarrow> step list \<Rightarrow> string \<Rightarrow> real \<Rightarrow> step list" where
  "merge_loop [] merged buffer_text buffer_delay =
     (if buffer_text \<noteq> []
      then merged @ [Keyboard ''Type Text'' buffer_text buffer_delay]
      else merged)"
| "merge_loop (st # rec) merged buffer_text buffer_delay =
     (if is_single_char st then
        (let buffer_delay' = (if buffer_text = [] then delay_of st else buffer_delay)
         in merge_loop rec merged (buffer_text @ value_of st) buffer_delay')
      else
        (if buffer_text \<noteq> []
         then merge_loop rec
                (merged @ [Keyboard ''Type Text'' buffer_text buffer_delay] @ [st]) [] buffer_delay
         else merge_loop rec (merged @ [st]) buffer_text buffer_delay))"

definition merge_pass :: "step list \<Rightarrow> step list" where
  "merge_pass rec = merge_loop rec [] [] 0"

text \<open>
  The coalescing pass as the specification words it: a maximal run of consecutive
  single-character type-text events becomes one step with the concatenated characters
  and the first event's delay; every other event is emitted as it is.
\<close>

function coalesce_spec :: "step list \<Rightarrow> step list" where
  "coalesce_spec [] = []"
| "coalesce_spec (st # rec) =
     (if is_single_char st then
        Keyboard ''Type Text'' (concat (map value_of (st # takeWhile is_single_char rec)))
                 (delay_of st)
          # coalesce_spec (dropWhile is_single_char rec)
      else st # coalesce_spec rec)"
  by pat_completeness auto
termination
  by (relation "measure length") (auto simp: length_dropWhile_le less_Suc_eq_le)

section \<open>Recorder: the capture phase of \<^verbatim>\<open>record_mouse_keyboard_session\<close>\<close>

text \<open>
  A pynput key is either a \<^verbatim>\<open>KeyCode\<close>, with an optional \<^verbatim>\<open>char\<close> and the text that
  \<^verbatim>\<open>str(key)\<close> gives, or a member \<^verbatim>\<open>Key.name\<close> of the enumeration of special keys,
  whose \<^verbatim>\<open>str\<close> is \<^verbatim>\<open>"Key.name"\<close>; the escape key is \<^verbatim>\<open>Key.esc\<close>.
\<close>

datatype key = KeyCode "string option" string | SpecialKey string

datatype button = ButtonLeft | ButtonRight | ButtonMiddle

text \<open>
  A raw event is one call of a listener callback, with the value of \<^verbatim>\<open>now()\<close> during
  that call: \<^verbatim>\<open>on_press(key)\<close> or \<^verbatim>\<open>on_click(x, y, button, pressed)\<close>.
\<close>

datatype raw_event = KeyPress key real | MouseClick int int button bool real

text \<open>
  The variables the two callbacks share (\<^verbatim>\<open>nonlocal\<close>), and whether each listener is
  still running. \<^verbatim>\<open>last_time\<close> is \<^verbatim>\<open>None\<close> in the source until the first event; it is
  never read before \<^verbatim>\<open>start_time\<close> is set, so the initial number here is never used.
\<close>

record recorder =
  rec :: "step list"
  start_time :: "real option"
  last_time :: real
  right_pressed_time :: "real option"
  kb_running :: bool
  ms_running :: bool

definition recorder_init :: recorder where
  "recorder_init = \<lparr> rec = [], start_time = None, last_time = 0, right_pressed_time = None,
                      kb_running = True, ms_running = True \<rparr>"

text \<open>Python's \<^verbatim>\<open>round(delay, 3)\<close>: to the nearest thousandth, ties to the even one.\<close>

definition round_half_even :: "real \<Rightarrow> int" where
  "round_half_even x =
     (let f = \<lfloor>x\<rfloor>; r = x - of_int f
      in if r < 1/2 then f else if 1/2 < r then f + 1 else if even f then f else f + 1)"

definition round3 :: "real \<Rightarrow> real" where
  "round3 d = of_int (round_half_even (d * 1000)) / 1000"

text \<open>
  \<^verbatim>\<open>add_delay_and_append(step)\<close>; the step comes without its delay, so it is passed as a
  function of the delay that the callback then stores under \<^verbatim>\<open>'delay'\<close>.
\<close>

definition add_delay_and_append :: "(real \<Rightarrow> step) \<Rightarrow> real \<Rightarrow> recorder \<Rightarrow> recorder" where
  "add_delay_and_append mk t r =
     (case start_time r of
        None \<Rightarrow> r\<lparr> start_time := Some t, rec := rec r @ [mk (round3 0)], last_time := t \<rparr>
      | Some t0 \<Rightarrow> r\<lparr> rec := rec r @ [mk (round3 (max 0 (t - last_time r)))], last_time := t \<rparr>)"

text \<open>\<^verbatim>\<open>s.replace(old, '')\<close> for a non-empty \<^verbatim>\<open>old\<close>: every occurrence, left to right.\<close>

function remove_all :: "string \<Rightarrow> string \<Rightarrow> string" where
  "remove_all old [] = []"
| "remove_all old (c # cs) =
     (if old \<noteq> [] \<and> prefix old (c # cs)
      then remove_all old (drop (length old) (c # cs))
      else c # remove_all old cs)"
  by pat_completeness auto
termination
  by (relation "measure (\<lambda>(old, s). length s)") auto

fun str_of_key :: "key \<Rightarrow> string" where
  "str_of_key (KeyCode c s) = s"
| "str_of_key (SpecialKey n) = ''Key.'' @ n"

text \<open>
  \<^verbatim>\<open>on_press\<close>. Returning \<^verbatim>\<open>False\<close> stops the keyboard listener, and only that one.
\<close>

definition on_press :: "key \<Rightarrow> real \<Rightarrow> recorder \<Rightarrow> recorder" where
  "on_press k t r =
     (case k of
        KeyCode (Some c) s \<Rightarrow>
          (if c \<noteq> [] then add_delay_and_append (Keyboard ''Type Text'' c) t r
           else add_delay_and_append (Keyboard ''Press Key'' (remove_all ''Key.'' (str_of_key k))) t r)
      | _ \<Rightarrow>
          (if k = SpecialKey ''esc'' then r\<lparr> kb_running := False \<rparr>
           else add_delay_and_append
                  (Keyboard ''Press Key'' (remove_all ''Key.'' (str_of_key k))) t r))"

text \<open>
  \<^verbatim>\<open>on_click\<close>, with the three \<^verbatim>\<open>if\<close> statements in the order of the source. The second
  tests \<^verbatim>\<open>right_pressed_time\<close> for truth: set, and not the number zero. Returning
  \<^verbatim>\<open>False\<close> stops the mouse listener, and only that one.
\<close>

definition on_click :: "real \<Rightarrow> int \<Rightarrow> int \<Rightarrow> button \<Rightarrow> bool \<Rightarrow> real \<Rightarrow> recorder \<Rightarrow> recorder" where
  "on_click stop_right_hold_sec x y b pressed t r =
     (let r1 = (if b = ButtonRight \<and> pressed then r\<lparr> right_pressed_time := Some t \<rparr> else r)
      in if b = ButtonRight \<and> \<not> pressed
            \<and> (case right_pressed_time r1 of None \<Rightarrow> False
                | Some t0 \<Rightarrow> t0 \<noteq> 0 \<and> stop_right_hold_sec \<le> t - t0)
         then r1\<lparr> ms_running := False \<rparr>
         else if pressed then add_delay_and_append (Mouse ''Click'' x y) t r1
         else r1)"

text \<open>
  The two listeners receive the events of their device for as long as they run; a stopped
  listener calls its callback no more.
\<close>

fun capture :: "real \<Rightarrow> raw_event list \<Rightarrow> recorder \<Rightarrow> recorder" where
  "capture hold [] r = r"
| "capture hold (KeyPress k t # evs) r =
     capture hold evs (if kb_running r then on_press k t r else r)"
| "capture hold (MouseClick x y b pressed t # evs) r =
     capture hold evs (if ms_running r then on_click hold x y b pressed t r else r)"

text \<open>
  The whole function. Without pynput it returns the empty list. Otherwise it joins the
  keyboard listener and then the mouse listener, so it returns once both have stopped;
  on a finite stream of events that leaves one of them running it has not returned,
  which is \<open>None\<close> here.
\<close>

definition record_mouse_keyboard_session ::
    "bool \<Rightarrow> real \<Rightarrow> raw_event list \<Rightarrow> step list option" where
  "record_mouse_keyboard_session pynput_available stop_right_hold_sec events =
     (if \<not> pynput_available then Some []
      else let r = capture stop_right_hold_sec events recorder_init
           in if kb_running r \<or> ms_running r then None else Some (merge_pass (rec r)))"

section \<open>The application state and its collaborators\<close>

text \<open>
  What \<^verbatim>\<open>pyautogui.locateCenterOnScreen\<close> can do: return a point, return \<^verbatim>\<open>None\<close>, or
  raise (caught by the \<^verbatim>\<open>except Exception\<close> of \<^verbatim>\<open>execute_step\<close>).
\<close>

datatype locate_result = Found int int | NotFound | LocateError

text \<open>
  The calls that a leaf step makes to pyautogui, in order. The constants of the source
  (\<^verbatim>\<open>duration=0.2\<close>, \<^verbatim>\<open>interval=0.01\<close>, \<^verbatim>\<open>confidence=0.8\<close>) are not repeated here.
  Every call other than the screen search is taken to return normally.
\<close>

datatype call =
    MoveTo int int
  | Click
  | Write string
  | Press string
  | Hotkey "string list"
  | LocateCenterOnScreen string locate_result
  | ClickAt int int

text \<open>
  The trace: every effect outside the variables of the application, in order, whichever
  thread made it. \<open>Leaf st cs\<close> is one execution of the leaf step \<open>st\<close> past the safety
  check of \<^verbatim>\<open>execute_step\<close>, with the calls it made. \<open>RunButtonClicked\<close> is a click of the
  user on the run button.
\<close>

datatype event =
    SelectionSet nat
  | Sleep real
  | RunButtonClicked
  | ClipboardGet "string option"
  | Leaf step "call list"

text \<open>
  The world around a run. Each answer may depend on the moment it is asked, which is the
  number of events so far: what the screen search finds for a path, and what the clipboard
  holds (\<open>None\<close> when \<^verbatim>\<open>clipboard_get\<close> raises \<^verbatim>\<open>TclError\<close>).
\<close>

record env =
  locate :: "nat \<Rightarrow> string \<Rightarrow> locate_result"
  clipboard :: "nat \<Rightarrow> string option"

text \<open>
  The fields of \<^verbatim>\<open>AutomationApp\<close> that the engine and the controller use, and the trace.
  All threads share them.
\<close>

record app =
  workflow :: "step list"
  is_running :: bool
  run_button :: string
  status_var :: string
  trace :: "event list"

definition log_event :: "event \<Rightarrow> app \<Rightarrow> app" where
  "log_event e s = s\<lparr> trace := trace s @ [e] \<rparr>"

section \<open>Execution threads\<close>

text \<open>
  The one exception of the engine that nothing catches: \<^verbatim>\<open>time.sleep\<close> refuses a negative
  length. It ends the execution thread where it is raised.
\<close>

datatype error = SleepValueError

text \<open>
  An execution thread is created by \<^verbatim>\<open>threading.Thread(target=self.run_workflow_loop)\<close>.
  It has returned (\<open>Finished\<close>), has died of an exception (\<open>Crashed\<close>), or waits: it has
  been started and has not run yet (\<open>Starting\<close>), or it is inside \<^verbatim>\<open>time.sleep(d)\<close>
  (\<open>Asleep d\<close>). A waiting thread carries the rest of its code: a function from the
  shared state that it finds when it goes on, to the shared state it leaves and its own
  state at its next wait or at its end. What a thread does between two waits is taken to
  happen at once; other threads and the user act while it waits.
\<close>

datatype pause = Starting | Asleep real

datatype thread =
    Finished
  | Crashed error
  | Waiting pause "app \<Rightarrow> app \<times> thread"

type_synonym segment = "app \<Rightarrow> app \<times> thread"

text \<open>\<^verbatim>\<open>time.sleep(d)\<close>, followed by the code \<open>k\<close>.\<close>

definition sleep :: "real \<Rightarrow> segment \<Rightarrow> segment" where
  "sleep d k s =
     (if d < 0 then (s, Crashed SleepValueError)
      else (log_event (Sleep d) s, Waiting (Asleep d) k))"

section \<open>Execution engine\<close>

text \<open>\<^verbatim>\<open>os.path.basename\<close> (POSIX): what follows the last slash.\<close>

definition basename :: "string \<Rightarrow> string" where
  "basename p = rev (takeWhile (\<lambda>c. c \<noteq> CHR ''/'') (rev p))"

text \<open>\<^verbatim>\<open>value.split('+')\<close> and \<^verbatim>\<open>k.strip()\<close> (ASCII white space).\<close>

fun split_on :: "char \<Rightarrow> string \<Rightarrow> string list" where
  "split_on sep [] = [[]]"
| "split_on sep (c # cs) =
     (if c = sep then [] # split_on sep cs
      else (case split_on sep cs of w # ws \<Rightarrow> (c # w) # ws | [] \<Rightarrow> [[c]]))"

definition is_space :: "char \<Rightarrow> bool" where
  "is_space c = (c \<in> set [CHR '' '', CHR 0x09, CHR 0x0A, CHR 0x0B, CHR 0x0C, CHR 0x0D])"

definition strip :: "string \<Rightarrow> string" where
  "strip s = rev (dropWhile is_space (rev (dropWhile is_space s)))"

text \<open>The two status texts of a failed image search.\<close>

definition image_not_found_status :: "string \<Rightarrow> string" where
  "image_not_found_status path =
     ''Status: Image not found '' @ [CHR 0x27] @ basename path @ [CHR 0x27]"

definition image_search_error_status :: string where
  "image_search_error_status = ''Status: Image search error. Is OpenCV installed?''"

text \<open>
  \<^verbatim>\<open>execute_step\<close>. Of the mouse actions only \<^verbatim>\<open>"Click"\<close> has code in the source; a
  step of another type falls through every branch.
\<close>

fun execute_step :: "env \<Rightarrow> step \<Rightarrow> app \<Rightarrow> app" where
  "execute_step E (Mouse a x y d) s =
     (if \<not> is_running s then s
      else log_event (Leaf (Mouse a x y d) (MoveTo x y # (if a = ''Click'' then [Click] else []))) s)"
| "execute_step E (Keyboard a v d) s =
     (if \<not> is_running s then s
      else log_event (Leaf (Keyboard a v d)
             (if a = ''Type Text'' then [Write v]
              else if a = ''Press Key'' then [Press v]
              else if a = ''Hotkey'' then [Hotkey (map strip (split_on CHR ''+'' v))]
              else [])) s)"
| "execute_step E (Image path d) s =
     (if \<not> is_running s then s
      else (case locate E (length (trace s)) path of
              Found x y \<Rightarrow>
                log_event (Leaf (Image path d)
                             [LocateCenterOnScreen path (Found x y), ClickAt x y]) s
            | NotFound \<Rightarrow>
                (log_event (Leaf (Image path d) [LocateCenterOnScreen path NotFound]) s)
                  \<lparr> status_var := image_not_found_status path, is_running := False \<rparr>
            | LocateError \<Rightarrow>
                (log_event (Leaf (Image path d) [LocateCenterOnScreen path LocateError]) s)
                  \<lparr> status_var := image_search_error_status, is_running := False \<rparr>))"
| "execute_step E st s = s"

text \<open>
  The loop over sub-steps, written three times in the source (the steps of a matched
  case, the else steps, the body of a loop block):
  \<^verbatim>\<open>for sub in steps: if not self.is_running: return; time.sleep(...); self.execute_step(sub)\<close>.
  The code that follows the loop is \<open>k\<close>; it is told whether the loop left through
  \<^verbatim>\<open>return\<close>.
\<close>

fun sub_steps_loop :: "env \<Rightarrow> step list \<Rightarrow> (bool \<Rightarrow> segment) \<Rightarrow> segment" where
  "sub_steps_loop E [] k s = k False s"
| "sub_steps_loop E (sub # subs) k s =
     (if \<not> is_running s then k True s
      else sleep (delay_of sub) (\<lambda>s1. sub_steps_loop E subs k (execute_step E sub s1)) s)"

text \<open>Python's \<^verbatim>\<open>in\<close> on strings: \<open>a\<close> occurs in \<open>b\<close> as a contiguous piece.\<close>

fun contains :: "string \<Rightarrow> string \<Rightarrow> bool" where
  "contains a [] = (a = [])"
| "contains a (c # cs) = (prefix a (c # cs) \<or> contains a cs)"

text \<open>
  The loop over the cases of \<^verbatim>\<open>execute_conditional_record\<close>. It ends by \<^verbatim>\<open>return\<close>
  (inside the sub-steps of the matched case), by \<^verbatim>\<open>break\<close> after a matched case, or by
  running out of cases with \<^verbatim>\<open>matched\<close> still false.
\<close>

datatype loop_exit = Returned | Matched | Unmatched

fun cases_loop :: "env \<Rightarrow> string \<Rightarrow> cond_case list \<Rightarrow> (loop_exit \<Rightarrow> segment) \<Rightarrow> segment" where
  "cases_loop E source_text [] k s = k Unmatched s"
| "cases_loop E source_text (c # cs) k s =
     (if case_value c \<noteq> [] \<and> contains (case_value c) source_text
      then sub_steps_loop E (case_steps c) (\<lambda>r. k (if r then Returned else Matched)) s
      else cases_loop E source_text cs k s)"

text \<open>\<^verbatim>\<open>step.get("cases", [])\<close> and the other reads with a default.\<close>

fun get_cases :: "step \<Rightarrow> cond_case list" where
  "get_cases (ConditionalRecord src cs es d) = cs"
| "get_cases _ = []"

fun get_else_steps :: "step \<Rightarrow> step list" where
  "get_else_steps (ConditionalRecord src cs es d) = es"
| "get_else_steps _ = []"

fun get_count :: "step \<Rightarrow> int" where
  "get_count (Loop n body d) = n"
| "get_count _ = 0"

fun get_steps :: "step \<Rightarrow> step list" where
  "get_steps (Loop n body d) = body"
| "get_steps _ = []"

definition source_text_of :: "string option \<Rightarrow> string" where
  "source_text_of r = (case r of None \<Rightarrow> [] | Some t \<Rightarrow> t)"

text \<open>
  \<^verbatim>\<open>execute_conditional_record\<close>, followed by the code \<open>k\<close> of its caller. After a
  \<^verbatim>\<open>return\<close> and after the end of the function the caller goes on alike.
\<close>

definition execute_conditional_record :: "env \<Rightarrow> step \<Rightarrow> segment \<Rightarrow> segment" where
  "execute_conditional_record E st k s =
     (if \<not> is_running s then k s
      else
        let got = clipboard E (length (trace s));
            source_text = source_text_of got;
            s0 = log_event (ClipboardGet got) s
        in cases_loop E source_text (get_cases st)
             (\<lambda>exit. case exit of
                 Returned \<Rightarrow> k
               | Matched \<Rightarrow> k
               | Unmatched \<Rightarrow> sub_steps_loop E (get_else_steps st) (\<lambda>r. k))
             s0)"

text \<open>Decimal text of a number, for the f-string of the loop status.\<close>

definition digit_char :: "nat \<Rightarrow> char" where
  "digit_char n = char_of (48 + n)"

function show_nat :: "nat \<Rightarrow> string" where
  "show_nat n = (if n < 10 then [digit_char n] else show_nat (n div 10) @ [digit_char (n mod 10)])"
  by pat_completeness auto
termination
  by (relation "measure id") auto

definition show_int :: "int \<Rightarrow> string" where
  "show_int i = (if i < 0 then CHR ''-'' # show_nat (nat (- i)) else show_nat (nat i))"

definition loop_status :: "nat \<Rightarrow> int \<Rightarrow> string" where
  "loop_status i count = ''Status: Running Loop '' @ show_nat (i + 1) @ ''/'' @ show_int count"

text \<open>
  \<^verbatim>\<open>execute_loop_block\<close>: \<^verbatim>\<open>for i in range(count)\<close>, where \<open>n\<close> counts the iterations
  that remain and \<open>i\<close> is the loop variable; \<open>k\<close> is the code of the caller.
\<close>

fun loop_iterations ::
  "env \<Rightarrow> int \<Rightarrow> step list \<Rightarrow> nat \<Rightarrow> nat \<Rightarrow> segment \<Rightarrow> segment" where
  "loop_iterations E count steps_to_repeat i 0 k s = k s"
| "loop_iterations E count steps_to_repeat i (Suc n) k s =
     (if \<not> is_running s then k s
      else sub_steps_loop E steps_to_repeat
             (\<lambda>r s1. if r then k s1
                      else loop_iterations E count steps_to_repeat (i + 1) n k s1)
             (s\<lparr> status_var := loop_status i count \<rparr>))"

definition execute_loop_block :: "env \<Rightarrow> step \<Rightarrow> segment \<Rightarrow> segment" where
  "execute_loop_block E loop_step k s =
     loop_iterations E (get_count loop_step) (get_steps loop_step) 0
       (nat (get_count loop_step)) k s"

text \<open>The dispatcher inside the main loop, on \<^verbatim>\<open>step["type"]\<close>.\<close>

fun dispatch :: "env \<Rightarrow> step \<Rightarrow> segment \<Rightarrow> segment" where
  "dispatch E (ConditionalRecord src cs es d) k s =
     execute_conditional_record E (ConditionalRecord src cs es d) k s"
| "dispatch E (Loop n body d) k s = execute_loop_block E (Loop n body d) k s"
| "dispatch E st k s = k (execute_step E st s)"

text \<open>The code after the \<^verbatim>\<open>while\<close> loop, with which the thread returns.\<close>

definition clean_up :: "app \<Rightarrow> app" where
  "clean_up s =
     (if is_running s
      then s\<lparr> is_running := False, run_button := ''Run Workflow'', status_var := ''Status: Idle'' \<rparr>
      else s)"

definition finish :: segment where
  "finish s = (clean_up s, Finished)"

text \<open>
  The \<^verbatim>\<open>while\<close> loop of \<^verbatim>\<open>run_workflow_loop\<close> from the program counter \<open>pc\<close>, and what
  follows it. The workflow is read, never written, by the engine, so it is a parameter.
\<close>

function while_loop :: "env \<Rightarrow> step list \<Rightarrow> nat \<Rightarrow> segment" where
  "while_loop E flow pc s =
     (if is_running s \<and> pc < length flow then
        sleep (delay_of (flow ! pc))
          (\<lambda>s1. if \<not> is_running s1 then finish s1
                 else dispatch E (flow ! pc) (\<lambda>s2. while_loop E flow (pc + 1) s2) s1)
          (log_event (SelectionSet pc) s)
      else finish s)"
  by pat_completeness auto
termination
  by (relation "measure (\<lambda>(E, flow, pc, s). length flow - pc)") auto

declare while_loop.simps [simp del]

definition run_workflow_loop :: "env \<Rightarrow> segment" where
  "run_workflow_loop E s =
     while_loop E (workflow s) 0 (s\<lparr> status_var := ''Status: Running...'' \<rparr>)"

section \<open>Run controller: \<^verbatim>\<open>toggle_run\<close>, and the threads of the application\<close>

text \<open>
  The application with the execution threads it has started, in the order of their
  creation. A thread is live while it waits.
\<close>

record system =
  shared :: app
  threads :: "thread list"

fun live :: "thread \<Rightarrow> bool" where
  "live (Waiting p k) = True"
| "live t = False"

text \<open>
  \<^verbatim>\<open>toggle_run\<close>, the command of the run button and the one entry point for starting and
  stopping. Starting creates a thread whose body is \<^verbatim>\<open>run_workflow_loop\<close> and starts it.
\<close>

definition toggle_run :: "env \<Rightarrow> system \<Rightarrow> system" where
  "toggle_run E sys =
     (if is_running (shared sys)
      then sys\<lparr> shared := (shared sys)\<lparr> is_running := False, run_button := ''Run Workflow'',
                                           status_var := ''Status: Stopping...'' \<rparr> \<rparr>
      else sys\<lparr> shared := (shared sys)\<lparr> is_running := True, run_button := ''Stop'' \<rparr>,
                 threads := threads sys @ [Waiting Starting (run_workflow_loop E)] \<rparr>)"

text \<open>
  Thread \<open>i\<close> goes on from where it waits, on the shared state as it is then, up to its
  next wait or its end. A thread that has ended does nothing more.
\<close>

definition resume :: "nat \<Rightarrow> system \<Rightarrow> system" where
  "resume i sys =
     (if i < length (threads sys)
      then (case threads sys ! i of
              Waiting p k \<Rightarrow>
                (case k (shared sys) of
                   (s', t') \<Rightarrow> sys\<lparr> shared := s', threads := (threads sys)[i := t'] \<rparr>)
            | t \<Rightarrow> sys)
      else sys)"

text \<open>
  What happens to the application, one thing after another: the user clicks the run
  button, or a waiting thread goes on.
\<close>

datatype action = ClickRunButton | Resume nat

fun perform :: "env \<Rightarrow> action \<Rightarrow> system \<Rightarrow> system" where
  "perform E ClickRunButton sys =
     toggle_run E (sys\<lparr> shared := log_event RunButtonClicked (shared sys) \<rparr>)"
| "perform E (Resume i) sys = resume i sys"

fun run_actions :: "env \<Rightarrow> action list \<Rightarrow> system \<Rightarrow> system" where
  "run_actions E [] sys = sys"
| "run_actions E (a # as) sys = run_actions E as (perform E a sys)"

text \<open>
  A thread left alone: whenever it waits it goes on at once, on the shared state as it
  left it, at most \<open>n\<close> times.
\<close>

fun run_alone :: "nat \<Rightarrow> app \<times> thread \<Rightarrow> app \<times> thread" where
  "run_alone 0 r = r"
| "run_alone (Suc n) (s, Waiting p k) = run_alone n (k s)"
| "run_alone (Suc n) (s, Finished) = (s, Finished)"
| "run_alone (Suc n) (s, Crashed e) = (s, Crashed e)"

section \<open>Step construction: the \<^verbatim>\<open>apply\<close> methods of the dialogs and \<^verbatim>\<open>add_step\<close>\<close>

text \<open>
  The built-in functions the dialogs call are parameters: \<^verbatim>\<open>int(text)\<close> and
  \<^verbatim>\<open>float(text)\<close>, with \<open>None\<close> for \<^verbatim>\<open>ValueError\<close>, and \<^verbatim>\<open>os.path.isfile\<close>.
\<close>

record builtins =
  py_int :: "string \<Rightarrow> int option"
  py_float :: "string \<Rightarrow> real option"
  isfile :: "string \<Rightarrow> bool"

text \<open>
  \<^verbatim>\<open>AddMouseStepDialog.apply\<close>: the dictionary is built field by field inside one
  \<^verbatim>\<open>try\<close>; any \<^verbatim>\<open>ValueError\<close> leaves \<^verbatim>\<open>self.result = None\<close>.
\<close>

definition AddMouseStepDialog_apply ::
    "builtins \<Rightarrow> string \<Rightarrow> string \<Rightarrow> string \<Rightarrow> string \<Rightarrow> step option" where
  "AddMouseStepDialog_apply B action_var x_entry y_entry delay_entry =
     (case py_int B x_entry of
        None \<Rightarrow> None
      | Some x \<Rightarrow>
          (case py_int B y_entry of
             None \<Rightarrow> None
           | Some y \<Rightarrow>
               (case py_float B delay_entry of
                  None \<Rightarrow> None
                | Some d \<Rightarrow> Some (Mouse action_var x y d))))"

definition AddKeyboardStepDialog_apply ::
    "builtins \<Rightarrow> string \<Rightarrow> string \<Rightarrow> string \<Rightarrow> step option" where
  "AddKeyboardStepDialog_apply B action_var value_entry delay_entry =
     (if value_entry = [] then None
      else (case py_float B delay_entry of
              None \<Rightarrow> None
            | Some d \<Rightarrow> Some (Keyboard action_var value_entry d)))"

text \<open>
  \<^verbatim>\<open>AddImageStepDialog.apply\<close> and \<^verbatim>\<open>AddLoopDialog.apply\<close> take the delay from the step
  being edited (\<^verbatim>\<open>init_data\<close>), or a default when a step is added.
\<close>

definition AddImageStepDialog_apply :: "builtins \<Rightarrow> string \<Rightarrow> real option \<Rightarrow> step option" where
  "AddImageStepDialog_apply B path init_delay =
     (if path = [] \<or> \<not> isfile B path then None
      else Some (Image path (case init_delay of None \<Rightarrow> 0.5 | Some d \<Rightarrow> d)))"

definition AddLoopDialog_apply ::
    "builtins \<Rightarrow> string \<Rightarrow> step list \<Rightarrow> real option \<Rightarrow> step option" where
  "AddLoopDialog_apply B count_entry steps init_delay =
     (case py_int B count_entry of
        None \<Rightarrow> None
      | Some count \<Rightarrow>
          if count < 0 then None
          else Some (Loop count steps (case init_delay of None \<Rightarrow> 0.1 | Some d \<Rightarrow> d)))"

text \<open>
  \<^verbatim>\<open>AutomationApp.add_step\<close> after the dialog has closed:
  \<^verbatim>\<open>if dialog.result: self.workflow.append(dialog.result)\<close>.
\<close>

definition add_step :: "step option \<Rightarrow> app \<Rightarrow> app" where
  "add_step result s =
     (case result of None \<Rightarrow> s | Some st \<Rightarrow> s\<lparr> workflow := workflow s @ [st] \<rparr>)"

text \<open>
  For examples, the two conversions on plain decimal numerals: an optional sign, digits,
  and for \<^verbatim>\<open>float\<close> an optional point followed by digits. Python accepts more (white
  space, underscores, exponents); on these numerals it gives the same number.
\<close>

definition digit_of :: "char \<Rightarrow> nat option" where
  "digit_of c =
     (if (48::nat) \<le> of_char c \<and> of_char c \<le> (57::nat) then Some (of_char c - 48) else None)"

fun digits_value :: "nat \<Rightarrow> string \<Rightarrow> nat option" where
  "digits_value acc [] = Some acc"
| "digits_value acc (c # cs) =
     (case digit_of c of None \<Rightarrow> None | Some d \<Rightarrow> digits_value (10 * acc + d) cs)"

definition dec_nat :: "string \<Rightarrow> nat option" where
  "dec_nat s = (if s = [] then None else digits_value 0 s)"

definition dec_int :: "string \<Rightarrow> int option" where
  "dec_int s =
     (case s of
        [] \<Rightarrow> None
      | c # cs \<Rightarrow>
          if c = CHR ''-'' then map_option (\<lambda>n. - int n) (dec_nat cs)
          else if c = CHR ''+'' then map_option int (dec_nat cs)
          else map_option int (dec_nat s))"

definition dec_unsigned :: "string \<Rightarrow> real option" where
  "dec_unsigned s =
     (let whole = takeWhile (\<lambda>c. c \<noteq> CHR ''.'') s;
          rest = dropWhile (\<lambda>c. c \<noteq> CHR ''.'') s
      in case dec_nat whole of
           None \<Rightarrow> None
         | Some w \<Rightarrow>
             (case rest of
                [] \<Rightarrow> Some (real w)
              | p # decimals \<Rightarrow>
                  (case dec_nat decimals of
                     None \<Rightarrow> None
                   | Some f \<Rightarrow> Some (real w + real f / 10 ^ length decimals))))"

definition dec_float :: "string \<Rightarrow> real option" where
  "dec_float s =
     (case s of
        [] \<Rightarrow> None
      | c # cs \<Rightarrow>
          if c = CHR ''-'' then map_option uminus (dec_unsigned cs)
          else if c = CHR ''+'' then dec_unsigned cs
          else dec_unsigned s)"

definition decimal_builtins :: builtins where
  "decimal_builtins = \<lparr> py_int = dec_int, py_float = dec_float, isfile = (\<lambda>p. False) \<rparr>"

section \<open>States and worlds for the examples\<close>

definition idle_app :: "step list \<Rightarrow> app" where
  "idle_app flow =
     \<lparr> workflow = flow, is_running = False, run_button = ''Run Workflow'',
       status_var = ''Status: Idle'', trace = [] \<rparr>"

definition idle_system :: "step list \<Rightarrow> system" where
  "idle_system flow = \<lparr> shared = idle_app flow, threads = [] \<rparr>"

definition quiet_env :: "locate_result \<Rightarrow> string option \<Rightarrow> env" where
  "quiet_env found clip = \<lparr> locate = (\<lambda>t p. found), clipboard = (\<lambda>t. clip) \<rparr>"

section \<open>Reading traces\<close>

text \<open>The leaf steps that were executed, in order, and what counts as a leaf step.\<close>

fun leaf_of :: "event \<Rightarrow> step list" where
  "leaf_of (Leaf st cs) = [st]"
| "leaf_of e = []"

definition executed :: "event list \<Rightarrow> step list" where
  "executed tr = concat (map leaf_of tr)"

fun is_leaf :: "step \<Rightarrow> bool" where
  "is_leaf (Mouse a x y d) = True"
| "is_leaf (Keyboard a v d) = True"
| "is_leaf (Image p d) = True"
| "is_leaf st = False"

text \<open>
  An event that records a failed screen search (the search returned \<^verbatim>\<open>None\<close> or raised),
  and the status text that \<^verbatim>\<open>execute_step\<close> sets with it.
\<close>

fun failed_lookup :: "call \<Rightarrow> bool" where
  "failed_lookup (LocateCenterOnScreen p NotFound) = True"
| "failed_lookup (LocateCenterOnScreen p LocateError) = True"
| "failed_lookup c = False"

fun failing :: "event \<Rightarrow> bool" where
  "failing (Leaf st cs) = list_ex failed_lookup cs"
| "failing e = False"

fun failure_status :: "event \<Rightarrow> string" where
  "failure_status (Leaf st [LocateCenterOnScreen p NotFound]) = image_not_found_status p"
| "failure_status (Leaf st cs) = image_search_error_status"
| "failure_status e = []"

fun returned :: "thread \<Rightarrow> bool" where
  "returned Finished = True"
| "returned t = False"

section \<open>Properties of an execution thread\<close>

text \<open>
  \<open>halts_on_failure n r\<close> reads the result \<open>r\<close> of a stretch of a thread that began when
  the trace had \<open>n\<close> events: if an event since then records a failed screen search, it
  is the only one and the last event of all, the thread has returned, the run flag is
  clear and the status is the text of that failure. \<open>failure_halts s r\<close> is this for the
  stretch from the state \<open>s\<close>.
\<close>

definition halts_on_failure :: "nat \<Rightarrow> app \<times> thread \<Rightarrow> bool" where
  "halts_on_failure n r =
     (let new = drop n (trace (fst r))
      in if list_ex failing new
         then failing (last new) \<and> \<not> list_ex failing (butlast new) \<and> returned (snd r) \<and>
              \<not> is_running (fst r) \<and> status_var (fst r) = failure_status (last new)
         else True)"

definition failure_halts :: "app \<Rightarrow> app \<times> thread \<Rightarrow> bool" where
  "failure_halts s r = halts_on_failure (length (trace s)) r"

text \<open>
  \<open>stops_when_told s r\<close>: a thread that goes on in a state \<open>s\<close> whose run flag is clear
  returns at once and leaves the state as it is.
\<close>

definition stops_when_told :: "app \<Rightarrow> app \<times> thread \<Rightarrow> bool" where
  "stops_when_told s r = (if is_running s then True else fst r = s \<and> returned (snd r))"

text \<open>
  \<open>always P t\<close>: whenever the thread \<open>t\<close> goes on, now or after any of its later waits,
  and whatever shared state \<open>s\<close> it finds then, the stretch it does has the property
  \<open>P s\<close>.
\<close>

inductive always :: "(app \<Rightarrow> app \<times> thread \<Rightarrow> bool) \<Rightarrow> thread \<Rightarrow> bool"
  for P :: "app \<Rightarrow> app \<times> thread \<Rightarrow> bool" where
  finished: "always P Finished"
| crashed: "always P (Crashed e)"
| waiting: "(\<And>s. P s (k s) \<and> always P (snd (k s))) \<Longrightarrow> always P (Waiting p k)"

text \<open>
  For the proofs: no failed search since the trace had \<open>n\<close> events; the two properties
  of a stretch together; and what is asked of a piece of code \<open>k\<close> of the engine, so that
  the code before it may rely on it.
\<close>

definition unfailed :: "nat \<Rightarrow> app \<Rightarrow> bool" where
  "unfailed n s = (n \<le> length (trace s) \<and> \<not> list_ex failing (drop n (trace s)))"

definition seg_ok :: "app \<Rightarrow> app \<times> thread \<Rightarrow> bool" where
  "seg_ok s r = (stops_when_told s r \<and> failure_halts s r)"

definition good :: "segment \<Rightarrow> bool" where
  "good k = ((\<forall>s. \<not> is_running s \<longrightarrow> k s = (s, Finished)) \<and>
             (\<forall>n s. unfailed n s \<longrightarrow> halts_on_failure n (k s) \<and> always seg_ok (snd (k s))))"

section \<open>Case selection as the claims word it\<close>

text \<open>
  The case that the conditional block runs: the first one whose value is not empty and
  occurs in the source text. \<open>selected_steps\<close> are its steps, or the else steps when
  there is none.
\<close>

definition first_match :: "string \<Rightarrow> cond_case list \<Rightarrow> cond_case option" where
  "first_match source_text cs =
     find (\<lambda>c. case_value c \<noteq> [] \<and> contains (case_value c) source_text) cs"

definition selected_steps :: "string \<Rightarrow> cond_case list \<Rightarrow> step list \<Rightarrow> step list" where
  "selected_steps source_text cs es =
     (case first_match source_text cs of None \<Rightarrow> es | Some c \<Rightarrow> case_steps c)"

text \<open>
  The selection by substring containment alone, as the specification words it: the first
  case whose value occurs in the source text.
\<close>

definition first_containing :: "string \<Rightarrow> cond_case list \<Rightarrow> cond_case option" where
  "first_containing source_text cs = find (\<lambda>c. contains (case_value c) source_text) cs"


section \<open>The coalescing pass\<close>

lemma single_char_value: "is_single_char st \<Longrightarrow> value_of st \<noteq> []"
  by (cases st) auto

lemma merge_loop_coalesce:
  "merge_loop recd merged [] buffer_delay = merged @ coalesce_spec recd"
  "buffer_text \<noteq> [] \<Longrightarrow>
   merge_loop recd merged buffer_text buffer_delay =
     merged @ Keyboard ''Type Text''
                (buffer_text @ concat (map value_of (takeWhile is_single_char recd))) buffer_delay
            # coalesce_spec (dropWhile is_single_char recd)"
proof (induction recd arbitrary: merged buffer_text buffer_delay)
  case Nil
  { case 1 show ?case by simp }
  { case 2 then show ?case by simp }
next
  case (Cons st recd)
  { case 1
    show ?case
    proof (cases "is_single_char st")
      case True
      then have "value_of st \<noteq> []" by (rule single_char_value)
      from Cons.IH(2) [OF this] True show ?thesis by simp
    next
      case False
      with Cons.IH(1) show ?thesis by simp
    qed }
  { case 2
    show ?case
    proof (cases "is_single_char st")
      case True
      with 2 Cons.IH(2) [of "buffer_text @ value_of st" merged buffer_delay]
      show ?thesis by simp
    next
      case False
      with 2 Cons.IH(1) show ?thesis by simp
    qed }
qed

text \<open>
  C6. The merging loop of the recorder computes the coalescing of the specification: each
  maximal run of consecutive single-character type-text events becomes one
  \<^verbatim>\<open>Type Text\<close> step with the concatenated characters and the delay of the first of them,
  every other event is emitted after the pending text, and a pending text at the end of
  the stream is emitted. On the events a (0.1 s), b (0.05 s), click, c (0.08 s) the result
  is the text ab with delay 0.1, the click, the text c with delay 0.08.
\<close>

theorem coalescing_pass:
  "merge_pass recd = coalesce_spec recd \<and>
   merge_pass [Keyboard ''Type Text'' ''a'' 0.1, Keyboard ''Type Text'' ''b'' 0.05,
               Mouse ''Click'' x y d, Keyboard ''Type Text'' ''c'' 0.08]
     = [Keyboard ''Type Text'' ''ab'' 0.1, Mouse ''Click'' x y d,
        Keyboard ''Type Text'' ''c'' 0.08]"
  by (simp add: merge_pass_def merge_loop_coalesce(1))

section \<open>The recording session\<close>

text \<open>
  C7. A session on which the claim fails: escape is pressed, then the left button is
  clicked, then the right button is held for 2.5 seconds and released. The function
  returns once both listeners have stopped, and its result holds two mouse steps: the
  left click made after the escape key, and the press that begins the terminal hold of
  the right button.
\<close>

theorem recording_after_escape:
  "record_mouse_keyboard_session True 2
     [KeyPress (SpecialKey ''esc'') 1,
      MouseClick 5 5 ButtonLeft True 2, MouseClick 5 5 ButtonLeft False 2.1,
      MouseClick 7 7 ButtonRight True 3, MouseClick 7 7 ButtonRight False 5.5]
   = Some [Mouse ''Click'' 5 5 0, Mouse ''Click'' 7 7 1]"
  by (simp add: record_mouse_keyboard_session_def recorder_init_def on_press_def on_click_def
      add_delay_and_append_def round3_def round_half_even_def merge_pass_def)

section \<open>Every thread of the engine stops when told and halts on a failed search\<close>

lemma always_mono:
  assumes "always P t" and "\<And>s r. P s r \<Longrightarrow> Q s r"
  shows "always Q t"
  using assms(1)
proof induction
  case (waiting k p)
  show ?case
  proof (rule always.waiting)
    fix s
    show "Q s (k s) \<and> always Q (snd (k s))"
      using waiting [of s] assms(2) by blast
  qed
qed (auto intro: always.intros)

lemma halts_unfailed: "unfailed n s \<Longrightarrow> halts_on_failure n (s, t)"
  by (simp add: unfailed_def halts_on_failure_def)

lemma unfailed_log: "unfailed n s \<Longrightarrow> \<not> failing e \<Longrightarrow> unfailed n (log_event e s)"
  by (simp add: unfailed_def log_event_def)

lemma unfailed_status [simp]: "unfailed n (s\<lparr> status_var := x \<rparr>) = unfailed n s"
  by (simp add: unfailed_def)

lemma unfailed_now: "unfailed (length (trace s)) s"
  by (simp add: unfailed_def)

lemma halts_failed:
  "unfailed n s \<Longrightarrow> failing e \<Longrightarrow>
   halts_on_failure n ((log_event e s)\<lparr> status_var := failure_status e, is_running := False \<rparr>, Finished)"
  by (simp add: unfailed_def halts_on_failure_def log_event_def butlast_append)

lemma goodI:
  assumes quiet: "\<And>s. \<not> is_running s \<Longrightarrow> k s = (s, Finished)"
    and main: "\<And>n s. unfailed n s \<Longrightarrow> is_running s \<Longrightarrow>
                 halts_on_failure n (k s) \<and> always seg_ok (snd (k s))"
  shows "good k"
  unfolding good_def
proof (intro conjI allI impI)
  fix s :: app assume "\<not> is_running s" then show "k s = (s, Finished)" by (rule quiet)
next
  fix n and s :: app assume u: "unfailed n s"
  show "halts_on_failure n (k s)"
  proof (cases "is_running s")
    case True with u main show ?thesis by blast
  next
    case False then show ?thesis using quiet [of s] u by (simp add: halts_unfailed)
  qed
  show "always seg_ok (snd (k s))"
  proof (cases "is_running s")
    case True with u main show ?thesis by blast
  next
    case False then show ?thesis using quiet [of s] by (simp add: always.finished)
  qed
qed

lemma good_quiet: "good k \<Longrightarrow> \<not> is_running s \<Longrightarrow> k s = (s, Finished)"
  by (simp add: good_def)

lemma good_main: "good k \<Longrightarrow> unfailed n s \<Longrightarrow> halts_on_failure n (k s) \<and> always seg_ok (snd (k s))"
  by (simp add: good_def)

lemma good_waiting:
  assumes "good k"
  shows "always seg_ok (Waiting p k)"
proof (rule always.waiting)
  fix s
  have a: "stops_when_told s (k s)"
    using good_quiet [OF assms, of s] by (simp add: stops_when_told_def)
  have b: "halts_on_failure (length (trace s)) (k s) \<and> always seg_ok (snd (k s))"
    using assms unfailed_now by (rule good_main)
  show "seg_ok s (k s) \<and> always seg_ok (snd (k s))"
    using a b by (simp add: seg_ok_def failure_halts_def)
qed

lemma good_finish: "good finish"
  by (rule goodI) (simp_all add: finish_def clean_up_def halts_on_failure_def unfailed_def
      always.finished)

lemma good_sleep:
  assumes "good k" and "unfailed n s"
  shows "halts_on_failure n (sleep d k s) \<and> always seg_ok (snd (sleep d k s))"
proof (cases "d < 0")
  case True
  then show ?thesis using assms(2) by (simp add: sleep_def halts_unfailed always.crashed)
next
  case False
  have "unfailed n (log_event (Sleep d) s)" using assms(2) by (rule unfailed_log) simp
  then show ?thesis
    using False good_waiting [OF assms(1)] by (simp add: sleep_def halts_unfailed)
qed

lemma execute_step_stopped: "\<not> is_running s \<Longrightarrow> execute_step E st s = s"
  by (cases st) simp_all

lemma execute_step_cases:
  assumes "is_running s"
  shows "execute_step E st s = s \<or>
         (\<exists>e. \<not> failing e \<and> execute_step E st s = log_event e s) \<or>
         (\<exists>e. failing e \<and>
              execute_step E st s =
                (log_event e s)\<lparr> status_var := failure_status e, is_running := False \<rparr>)"
proof (cases st)
  case (Image p d)
  show ?thesis
  proof (cases "locate E (length (trace s)) p")
    case (Found x y)
    let ?e = "Leaf (Image p d) [LocateCenterOnScreen p (Found x y), ClickAt x y]"
    have "\<not> failing ?e" by simp
    moreover have "execute_step E st s = log_event ?e s" using Image Found assms by simp
    ultimately show ?thesis by blast
  next
    case NotFound
    let ?e = "Leaf (Image p d) [LocateCenterOnScreen p NotFound]"
    have "failing ?e" by simp
    moreover have "execute_step E st s =
        (log_event ?e s)\<lparr> status_var := failure_status ?e, is_running := False \<rparr>"
      using Image NotFound assms by simp
    ultimately show ?thesis by blast
  next
    case LocateError
    let ?e = "Leaf (Image p d) [LocateCenterOnScreen p LocateError]"
    have "failing ?e" by simp
    moreover have "execute_step E st s =
        (log_event ?e s)\<lparr> status_var := failure_status ?e, is_running := False \<rparr>"
      using Image LocateError assms by simp
    ultimately show ?thesis by blast
  qed
next
  case (Mouse a x y d)
  let ?e = "Leaf (Mouse a x y d) (MoveTo x y # (if a = ''Click'' then [Click] else []))"
  have "\<not> failing ?e" by simp
  moreover have "execute_step E st s = log_event ?e s" using Mouse assms by simp
  ultimately show ?thesis by blast
next
  case (Keyboard a v d)
  let ?cs = "if a = ''Type Text'' then [Write v]
              else if a = ''Press Key'' then [Press v]
              else if a = ''Hotkey'' then [Hotkey (map strip (split_on CHR ''+'' v))]
              else []"
  have "\<not> list_ex failed_lookup ?cs" by simp
  then have "\<not> failing (Leaf (Keyboard a v d) ?cs)" by (simp only: failing.simps simp_thms)
  moreover have "execute_step E st s = log_event (Leaf (Keyboard a v d) ?cs) s"
    using Keyboard assms by (simp only: execute_step.simps if_False not_True_eq_False simp_thms)
  ultimately show ?thesis by blast
next
  case (ConditionalRecord src cs es d)
  then show ?thesis by simp
next
  case (Loop c body d)
  then show ?thesis by simp
qed

lemma good_after_step:
  assumes "good K"
  shows "good (\<lambda>s. K (execute_step E st s))"
proof (rule goodI)
  fix s :: app assume "\<not> is_running s"
  then show "K (execute_step E st s) = (s, Finished)"
    using good_quiet [OF assms] by (simp add: execute_step_stopped)
next
  fix n and s :: app assume u: "unfailed n s" and r: "is_running s"
  from execute_step_cases [OF r, of E st]
  consider (same) "execute_step E st s = s"
    | (ok) e where "\<not> failing e" "execute_step E st s = log_event e s"
    | (fail) e where "failing e"
        "execute_step E st s = (log_event e s)\<lparr> status_var := failure_status e, is_running := False \<rparr>"
    by blast
  then show "halts_on_failure n (K (execute_step E st s)) \<and>
             always seg_ok (snd (K (execute_step E st s)))"
  proof cases
    case same
    then show ?thesis using good_main [OF assms u] by simp
  next
    case ok
    then show ?thesis using good_main [OF assms unfailed_log [OF u ok(1)]] by simp
  next
    case fail
    let ?s' = "(log_event e s)\<lparr> status_var := failure_status e, is_running := False \<rparr>"
    have "K ?s' = (?s', Finished)" by (rule good_quiet [OF assms]) simp
    then show ?thesis using fail halts_failed [OF u fail(1)] by (simp add: always.finished)
  qed
qed

lemma good_sub_steps:
  assumes "\<And>r. good (k r)"
  shows "good (sub_steps_loop E subs k)"
proof (induction subs)
  case Nil
  have "sub_steps_loop E [] k = k False" by (rule ext) simp
  then show ?case using assms by simp
next
  case (Cons sub subs)
  show ?case
  proof (rule goodI)
    fix s :: app assume "\<not> is_running s"
    then show "sub_steps_loop E (sub # subs) k s = (s, Finished)"
      using good_quiet [OF assms] by simp
  next
    fix n and s :: app assume u: "unfailed n s" and r: "is_running s"
    have "good (\<lambda>s1. sub_steps_loop E subs k (execute_step E sub s1))"
      using Cons.IH by (rule good_after_step)
    from good_sleep [OF this u] r
    show "halts_on_failure n (sub_steps_loop E (sub # subs) k s) \<and>
          always seg_ok (snd (sub_steps_loop E (sub # subs) k s))"
      by simp
  qed
qed

lemma good_cases_loop:
  assumes "\<And>x. good (k x)"
  shows "good (cases_loop E source_text cs k)"
proof (induction cs)
  case Nil
  have "cases_loop E source_text [] k = k Unmatched" by (rule ext) simp
  then show ?case using assms by simp
next
  case (Cons c cs)
  show ?case
  proof (cases "case_value c \<noteq> [] \<and> contains (case_value c) source_text")
    case True
    then have "cases_loop E source_text (c # cs) k =
          sub_steps_loop E (case_steps c) (\<lambda>r. k (if r then Returned else Matched))"
      by (intro ext) simp
    then show ?thesis using good_sub_steps [of "\<lambda>r. k (if r then Returned else Matched)"] assms
      by simp
  next
    case False
    then have "cases_loop E source_text (c # cs) k = cases_loop E source_text cs k"
      by (intro ext) auto
    then show ?thesis using Cons.IH by simp
  qed
qed

lemma good_conditional:
  assumes "good k"
  shows "good (execute_conditional_record E st k)"
proof (rule goodI)
  fix s :: app assume "\<not> is_running s"
  then show "execute_conditional_record E st k s = (s, Finished)"
    using good_quiet [OF assms] by (simp add: execute_conditional_record_def)
next
  fix n and s :: app assume u: "unfailed n s" and r: "is_running s"
  let ?got = "clipboard E (length (trace s))"
  let ?K = "\<lambda>exit. case exit of Returned \<Rightarrow> k | Matched \<Rightarrow> k
                 | Unmatched \<Rightarrow> sub_steps_loop E (get_else_steps st) (\<lambda>r. k)"
  have "good (?K x)" for x
    using assms good_sub_steps [of "\<lambda>r. k"] by (cases x) simp_all
  then have g: "good (cases_loop E (source_text_of ?got) (get_cases st) ?K)"
    by (rule good_cases_loop)
  have "unfailed n (log_event (ClipboardGet ?got) s)" using u by (rule unfailed_log) simp
  from good_main [OF g this] r
  show "halts_on_failure n (execute_conditional_record E st k s) \<and>
        always seg_ok (snd (execute_conditional_record E st k s))"
    by (simp add: execute_conditional_record_def Let_def)
qed

lemma good_loop_iterations:
  assumes "good k"
  shows "good (loop_iterations E count body i n k)"
proof (induction n arbitrary: i)
  case 0
  have "loop_iterations E count body i 0 k = k" by (rule ext) simp
  then show ?case using assms by simp
next
  case (Suc n)
  let ?K = "\<lambda>r s1. if r then k s1 else loop_iterations E count body (i + 1) n k s1"
  have "good (?K r)" for r
    using assms Suc.IH [of "i + 1"] by (cases r) simp_all
  then have g: "good (sub_steps_loop E body ?K)" by (rule good_sub_steps)
  show ?case
  proof (rule goodI)
    fix s :: app assume "\<not> is_running s"
    then show "loop_iterations E count body i (Suc n) k s = (s, Finished)"
      using good_quiet [OF assms] by simp
  next
    fix m and s :: app assume u: "unfailed m s" and r: "is_running s"
    have "unfailed m (s\<lparr> status_var := loop_status i count \<rparr>)" using u by simp
    from good_main [OF g this] r
    show "halts_on_failure m (loop_iterations E count body i (Suc n) k s) \<and>
          always seg_ok (snd (loop_iterations E count body i (Suc n) k s))"
      by simp
  qed
qed

lemma good_dispatch:
  assumes "good k"
  shows "good (dispatch E st k)"
proof (cases st)
  case (ConditionalRecord src cs es d)
  have "dispatch E st k = execute_conditional_record E st k"
    by (rule ext) (simp add: ConditionalRecord)
  then show ?thesis using good_conditional [OF assms] by simp
next
  case (Loop c body d)
  have "dispatch E st k = loop_iterations E c body 0 (nat c) k"
    by (rule ext) (simp add: Loop execute_loop_block_def)
  then show ?thesis using good_loop_iterations [OF assms] by simp
next
  case (Mouse a x y d)
  have "dispatch E st k = (\<lambda>s. k (execute_step E st s))" by (rule ext) (simp add: Mouse)
  then show ?thesis using good_after_step [OF assms] by simp
next
  case (Keyboard a v d)
  have "dispatch E st k = (\<lambda>s. k (execute_step E st s))" by (rule ext) (simp add: Keyboard)
  then show ?thesis using good_after_step [OF assms] by simp
next
  case (Image p d)
  have "dispatch E st k = (\<lambda>s. k (execute_step E st s))" by (rule ext) (simp add: Image)
  then show ?thesis using good_after_step [OF assms] by simp
qed

lemma good_while_loop: "good (while_loop E flow pc)"
proof (induction "length flow - pc" arbitrary: pc)
  case 0
  then have "while_loop E flow pc = finish"
    by (intro ext) (simp add: while_loop.simps)
  then show ?case using good_finish by simp
next
  case (Suc m)
  then have lt: "pc < length flow" and ih: "good (while_loop E flow (pc + 1))" by simp_all
  let ?K = "\<lambda>s1. if \<not> is_running s1 then finish s1
                  else dispatch E (flow ! pc) (\<lambda>s2. while_loop E flow (pc + 1) s2) s1"
  have gK: "good ?K"
  proof (rule goodI)
    fix s :: app assume "\<not> is_running s"
    then show "?K s = (s, Finished)" by (simp add: finish_def clean_up_def)
  next
    fix n and s :: app assume u: "unfailed n s" and r: "is_running s"
    have "good (dispatch E (flow ! pc) (\<lambda>s2. while_loop E flow (pc + 1) s2))"
      using ih by (intro good_dispatch) simp
    from good_main [OF this u] r
    show "halts_on_failure n (?K s) \<and> always seg_ok (snd (?K s))" by simp
  qed
  show ?case
  proof (rule goodI)
    fix s :: app assume "\<not> is_running s"
    then show "while_loop E flow pc s = (s, Finished)"
      by (simp add: while_loop.simps finish_def clean_up_def)
  next
    fix n and s :: app assume u: "unfailed n s" and r: "is_running s"
    have "unfailed n (log_event (SelectionSet pc) s)" using u by (rule unfailed_log) simp
    from good_sleep [OF gK this] r lt
    show "halts_on_failure n (while_loop E flow pc s) \<and>
          always seg_ok (snd (while_loop E flow pc s))"
      by (subst (1 2) while_loop.simps) simp
  qed
qed

lemma engine_thread:
  "failure_halts s (run_workflow_loop E s) \<and> always seg_ok (snd (run_workflow_loop E s))"
proof -
  have "unfailed (length (trace s)) (s\<lparr> status_var := ''Status: Running...'' \<rparr>)"
    by (simp add: unfailed_now)
  from good_main [OF good_while_loop this]
  show ?thesis by (simp add: run_workflow_loop_def failure_halts_def)
qed


lemma stopped_thread_returns: "always stops_when_told (snd (run_workflow_loop E s))"
  using engine_thread [of s E] by (auto intro: always_mono simp: seg_ok_def)

lemma engine_thread_halts: "always failure_halts (snd (run_workflow_loop E s))"
  using engine_thread [of s E] by (auto intro: always_mono simp: seg_ok_def)

lemma new_thread_halts: "always failure_halts (Waiting Starting (run_workflow_loop E))"
proof (rule always.waiting)
  fix s
  show "failure_halts s (run_workflow_loop E s) \<and> always failure_halts (snd (run_workflow_loop E s))"
    using engine_thread [of s E] engine_thread_halts [of E s] by simp
qed

lemma always_next: "always P (Waiting p k) \<Longrightarrow> always P (snd (k s))"
  by (erule always.cases) auto

lemma resume_threads:
  assumes "\<forall>t\<in>set (threads sys). always P t"
  shows "\<forall>t\<in>set (threads (resume i sys)). always P t"
proof (cases "i < length (threads sys)")
  case False
  then show ?thesis using assms by (simp add: resume_def)
next
  case True
  show ?thesis
  proof (cases "threads sys ! i")
    case (Waiting p k)
    have "always P (Waiting p k)" using assms True Waiting by (metis nth_mem)
    then have "always P (snd (k (shared sys)))" by (rule always_next)
    moreover have "threads (resume i sys) = (threads sys)[i := snd (k (shared sys))]"
      using True Waiting by (simp add: resume_def split: prod.splits)
    ultimately show ?thesis using assms by (auto dest!: subsetD [OF set_update_subset_insert])
  qed (use assms True in \<open>simp_all add: resume_def\<close>)
qed

lemma perform_threads:
  assumes "\<forall>t\<in>set (threads sys). always failure_halts t"
  shows "\<forall>t\<in>set (threads (perform E a sys)). always failure_halts t"
proof (cases a)
  case ClickRunButton
  then show ?thesis using assms new_thread_halts [of E] by (auto simp: toggle_run_def)
next
  case (Resume i)
  then show ?thesis using resume_threads [OF assms] by simp
qed

lemma run_actions_threads:
  assumes "\<forall>t\<in>set (threads sys). always failure_halts t"
  shows "\<forall>t\<in>set (threads (run_actions E acts sys)). always failure_halts t"
  using assms
proof (induction acts arbitrary: sys)
  case Nil
  then show ?case by simp
next
  case (Cons a acts)
  from Cons.IH [OF perform_threads [OF Cons.prems]] show ?case by simp
qed

section \<open>Sub-steps, cases and iterations\<close>

lemma cases_loop_skip_empty:
  "cases_loop E source_text (pre @ Case [] sts # post) k s = cases_loop E source_text (pre @ post) k s"
  by (induction pre) simp_all

lemma cases_loop_selected:
  "cases_loop E source_text cs
     (\<lambda>exit. case exit of Returned \<Rightarrow> k | Matched \<Rightarrow> k
                | Unmatched \<Rightarrow> sub_steps_loop E es (\<lambda>r. k)) s
   = sub_steps_loop E (selected_steps source_text cs es) (\<lambda>r. k) s"
proof (induction cs)
  case Nil
  show ?case by (simp add: selected_steps_def first_match_def)
next
  case (Cons c cs)
  show ?case
  proof (cases "case_value c \<noteq> [] \<and> contains (case_value c) source_text")
    case True
    have "(\<lambda>r. case (if r then Returned else Matched) of Returned \<Rightarrow> k | Matched \<Rightarrow> k
                | Unmatched \<Rightarrow> sub_steps_loop E es (\<lambda>r. k)) = (\<lambda>r. k)"
      by (rule ext) simp
    with True show ?thesis by (simp add: selected_steps_def first_match_def)
  next
    case False
    then have "selected_steps source_text (c # cs) es = selected_steps source_text cs es"
      by (auto simp: selected_steps_def first_match_def)
    with False Cons.IH show ?thesis by auto
  qed
qed

lemma conditional_selected:
  assumes "is_running s"
  shows "execute_conditional_record E (ConditionalRecord src cs es d) k s
     = sub_steps_loop E
         (selected_steps (source_text_of (clipboard E (length (trace s)))) cs es) (\<lambda>r. k)
         (log_event (ClipboardGet (clipboard E (length (trace s)))) s)"
  using assms by (simp add: execute_conditional_record_def Let_def cases_loop_selected)

lemma executed_append [simp]: "executed (xs @ ys) = executed xs @ executed ys"
  by (simp add: executed_def)

lemma execute_step_found:
  assumes "is_running s" and "\<forall>t p. \<exists>x y. locate E t p = Found x y"
  shows "is_running (execute_step E st s) \<and>
         executed (trace (execute_step E st s))
           = executed (trace s) @ (if is_leaf st then [st] else [])"
proof (cases st)
  case (Image p d)
  from assms(2) obtain x y where "locate E (length (trace s)) p = Found x y" by blast
  with Image assms(1) show ?thesis by (simp add: log_event_def executed_def)
qed (use assms(1) in \<open>simp_all add: log_event_def executed_def\<close>)

lemma sub_steps_alone:
  assumes "is_running s" and "\<forall>sub\<in>set subs. 0 \<le> delay_of sub"
    and "\<forall>t p. \<exists>x y. locate E t p = Found x y"
  shows "\<exists>s'. is_running s' \<and>
           executed (trace s') = executed (trace s) @ filter is_leaf subs \<and>
           (\<forall>k m. run_alone (length subs + m) (sub_steps_loop E subs k s)
                    = run_alone m (k False s'))"
  using assms(1,2)
proof (induction subs arbitrary: s)
  case Nil
  then show ?case by auto
next
  case (Cons sub subs)
  let ?s1 = "log_event (Sleep (delay_of sub)) s"
  let ?s2 = "execute_step E sub ?s1"
  have r1: "is_running ?s1" using Cons.prems(1) by (simp add: log_event_def)
  from execute_step_found [OF r1 assms(3), of sub]
  have r2: "is_running ?s2"
    and e2: "executed (trace ?s2) = executed (trace s) @ (if is_leaf sub then [sub] else [])"
    by (simp_all add: log_event_def executed_def)
  from Cons.IH [OF r2] Cons.prems(2)
  obtain s' where s': "is_running s'"
    "executed (trace s') = executed (trace ?s2) @ filter is_leaf subs"
    "\<And>k m. run_alone (length subs + m) (sub_steps_loop E subs k ?s2) = run_alone m (k False s')"
    by auto
  have "run_alone (length (sub # subs) + m) (sub_steps_loop E (sub # subs) k s)
          = run_alone m (k False s')" for k m
    using Cons.prems s'(3) [of m k] by (simp add: sleep_def)
  moreover have "executed (trace s') = executed (trace s) @ filter is_leaf (sub # subs)"
    using s'(2) e2 by simp
  ultimately show ?case using s'(1) by blast
qed

lemma loop_iterations_alone:
  assumes "is_running s" and "\<forall>sub\<in>set body. 0 \<le> delay_of sub"
    and "\<forall>t p. \<exists>x y. locate E t p = Found x y"
  shows "\<exists>s'. is_running s' \<and>
           executed (trace s') = executed (trace s) @ concat (replicate n (filter is_leaf body)) \<and>
           (\<forall>k m. run_alone (n * length body + m) (loop_iterations E count body i n k s)
                    = run_alone m (k s'))"
  using assms(1)
proof (induction n arbitrary: s i)
  case 0
  then show ?case by auto
next
  case (Suc n)
  let ?s0 = "s\<lparr> status_var := loop_status i count \<rparr>"
  have "is_running ?s0" using Suc.prems by simp
  from sub_steps_alone [OF this assms(2,3)]
  obtain s1 where s1: "is_running s1"
    "executed (trace s1) = executed (trace s) @ filter is_leaf body"
    "\<And>k m. run_alone (length body + m) (sub_steps_loop E body k ?s0) = run_alone m (k False s1)"
    by auto
  from Suc.IH [OF s1(1), of "i + 1"]
  obtain s' where s': "is_running s'"
    "executed (trace s') = executed (trace s1) @ concat (replicate n (filter is_leaf body))"
    "\<And>k m. run_alone (n * length body + m) (loop_iterations E count body (i + 1) n k s1)
              = run_alone m (k s')"
    by auto
  have "run_alone (Suc n * length body + m) (loop_iterations E count body i (Suc n) k s)
          = run_alone m (k s')" for k m
  proof -
    let ?K = "\<lambda>r s1. if r then k s1 else loop_iterations E count body (i + 1) n k s1"
    have "Suc n * length body + m = length body + (n * length body + m)" by simp
    moreover have "loop_iterations E count body i (Suc n) k s = sub_steps_loop E body ?K ?s0"
      using Suc.prems by simp
    moreover have "run_alone (length body + (n * length body + m)) (sub_steps_loop E body ?K ?s0)
        = run_alone (n * length body + m) (?K False s1)"
      by (rule s1(3))
    moreover have "?K False s1 = loop_iterations E count body (i + 1) n k s1" by simp
    ultimately show ?thesis using s'(3) [of m k] by (simp only:)
  qed
  moreover have "executed (trace s') = executed (trace s) @ concat (replicate (Suc n) (filter is_leaf body))"
    using s'(2) s1(2) by simp
  ultimately show ?case using s'(1) by blast
qed

lemma loop_zero_advances:
  assumes "is_running s" "pc < length flow" "flow ! pc = Loop 0 body d" "0 \<le> d"
  shows "while_loop E flow pc s =
           (log_event (Sleep d) (log_event (SelectionSet pc) s),
            Waiting (Asleep d)
              (\<lambda>s1. if \<not> is_running s1 then finish s1 else while_loop E flow (pc + 1) s1))"
proof -
  have "(\<lambda>s1. if \<not> is_running s1 then finish s1
               else dispatch E (flow ! pc) (\<lambda>s2. while_loop E flow (pc + 1) s2) s1)
        = (\<lambda>s1. if \<not> is_running s1 then finish s1 else while_loop E flow (pc + 1) s1)"
    by (rule ext) (simp add: assms(3) execute_loop_block_def)
  then show ?thesis
    using assms by (subst while_loop.simps) (simp add: sleep_def)
qed


section \<open>The run controller and the threads it starts\<close>

text \<open>
  C5. A course of events on which the claim fails. The workflow has two steps and the first
  has a delay of five seconds. The user clicks the run button; the thread that this starts
  begins its sleep of five seconds; before it wakes, the user clicks the button twice
  more. The second click finds the run flag set and clears it. The third click finds the
  flag clear, so it is taken as a start: it sets the flag and starts a second thread while
  the first is still asleep. From then on two threads are live. The first thread, on
  waking, finds the flag set and goes on; both threads execute the first step and both
  sleep for the second.
\<close>

theorem stop_then_start_two_threads:
  "map live (threads (run_actions (quiet_env (Found 1 1) None)
       [ClickRunButton, Resume 0, ClickRunButton, ClickRunButton]
       (idle_system [Mouse ''Click'' 10 10 5, Keyboard ''Type Text'' ''hi'' 1])))
     = [True, True] \<and>
   map live (threads (run_actions (quiet_env (Found 1 1) None)
       [ClickRunButton, Resume 0, ClickRunButton, ClickRunButton, Resume 1, Resume 0, Resume 1]
       (idle_system [Mouse ''Click'' 10 10 5, Keyboard ''Type Text'' ''hi'' 1])))
     = [True, True] \<and>
   trace (shared (run_actions (quiet_env (Found 1 1) None)
       [ClickRunButton, Resume 0, ClickRunButton, ClickRunButton, Resume 1, Resume 0, Resume 1]
       (idle_system [Mouse ''Click'' 10 10 5, Keyboard ''Type Text'' ''hi'' 1])))
     = [RunButtonClicked, SelectionSet 0, Sleep 5, RunButtonClicked, RunButtonClicked,
        SelectionSet 0, Sleep 5,
        Leaf (Mouse ''Click'' 10 10 5) [MoveTo 10 10, Click], SelectionSet 1, Sleep 1,
        Leaf (Mouse ''Click'' 10 10 5) [MoveTo 10 10, Click], SelectionSet 1, Sleep 1]"
  by (simp add: run_workflow_loop_def while_loop.simps toggle_run_def resume_def
      idle_system_def idle_app_def log_event_def sleep_def finish_def clean_up_def quiet_env_def)

text \<open>
  C4. A course of events on which the claim fails, by the defect shown for C5. The first
  thread sleeps for the five seconds of the first step. During that sleep the user clicks
  the run button, which clears the run flag, and clicks it again, which sets the flag and
  starts a second thread. On waking, the first thread finds the flag set: it executes the
  mouse step and begins the sleep of the next step. Without the last click the same thread
  ends on waking, and no leaf step is executed.
\<close>

theorem stop_during_sleep_then_start:
  "trace (shared (run_actions (quiet_env (Found 1 1) None)
       [ClickRunButton, Resume 0, ClickRunButton, ClickRunButton, Resume 0]
       (idle_system [Mouse ''Click'' 10 10 5, Keyboard ''Type Text'' ''hi'' 1])))
     = [RunButtonClicked, SelectionSet 0, Sleep 5, RunButtonClicked, RunButtonClicked,
        Leaf (Mouse ''Click'' 10 10 5) [MoveTo 10 10, Click], SelectionSet 1, Sleep 1] \<and>
   map live (threads (run_actions (quiet_env (Found 1 1) None)
       [ClickRunButton, Resume 0, ClickRunButton, ClickRunButton, Resume 0]
       (idle_system [Mouse ''Click'' 10 10 5, Keyboard ''Type Text'' ''hi'' 1])))
     = [True, True] \<and>
   trace (shared (run_actions (quiet_env (Found 1 1) None)
       [ClickRunButton, Resume 0, ClickRunButton, Resume 0]
       (idle_system [Mouse ''Click'' 10 10 5, Keyboard ''Type Text'' ''hi'' 1])))
     = [RunButtonClicked, SelectionSet 0, Sleep 5, RunButtonClicked] \<and>
   map live (threads (run_actions (quiet_env (Found 1 1) None)
       [ClickRunButton, Resume 0, ClickRunButton, Resume 0]
       (idle_system [Mouse ''Click'' 10 10 5, Keyboard ''Type Text'' ''hi'' 1])))
     = [False]"
  by (simp add: run_workflow_loop_def while_loop.simps toggle_run_def resume_def
      idle_system_def idle_app_def log_event_def sleep_def finish_def clean_up_def quiet_env_def)

section \<open>A failed screen search\<close>

text \<open>
  C1, as stated, fails when the screen search raises instead of returning nothing: the run
  halts, but the status is then a fixed text that does not name the image file. Here the
  workflow begins with an image step for \<^verbatim>\<open>/home/u/pics/ok.png\<close> and the search raises.
\<close>

theorem image_search_error_counterexample:
  "status_var (shared (run_actions (quiet_env LocateError None)
       [ClickRunButton, Resume 0, Resume 0]
       (idle_system [Image ''/home/u/pics/ok.png'' 0, Mouse ''Click'' 1 1 0])))
     = ''Status: Image search error. Is OpenCV installed?'' \<and>
   basename ''/home/u/pics/ok.png'' = ''ok.png'' \<and>
   \<not> contains ''ok.png'' ''Status: Image search error. Is OpenCV installed?'' \<and>
   trace (shared (run_actions (quiet_env LocateError None)
       [ClickRunButton, Resume 0, Resume 0]
       (idle_system [Image ''/home/u/pics/ok.png'' 0, Mouse ''Click'' 1 1 0])))
     = [RunButtonClicked, SelectionSet 0, Sleep 0,
        Leaf (Image ''/home/u/pics/ok.png'' 0)
          [LocateCenterOnScreen ''/home/u/pics/ok.png'' LocateError]]"
  by (simp add: run_workflow_loop_def while_loop.simps toggle_run_def resume_def
      idle_system_def idle_app_def log_event_def sleep_def finish_def clean_up_def quiet_env_def
      image_search_error_status_def basename_def)

text \<open>
  C1, amended. In whatever state a thread of the engine goes on, at its start or after any
  of its sleeps: if, before its next sleep, a screen search fails (it returns nothing or it
  raises), then the event of that search is the last one, so no later step is executed; the
  thread has returned; the run flag is clear; and the status is
  \<^verbatim>\<open>Status: Image not found '<base name of the path>'\<close> when the search returned nothing,
  and \<^verbatim>\<open>Status: Image search error. Is OpenCV installed?\<close> when it raised. This holds for
  the body of a thread from any state, and for every thread that exists after any course of
  clicks on the run button and of threads going on, from the idle application.
\<close>

theorem failed_lookup_halts:
  "failure_halts s (run_workflow_loop E s) \<and>
   always failure_halts (snd (run_workflow_loop E s)) \<and>
   (\<forall>t\<in>set (threads (run_actions E acts (idle_system flow))). always failure_halts t)"
  using engine_thread [of s E] engine_thread_halts [of E s]
    run_actions_threads [of "idle_system flow" E acts]
  by (simp add: idle_system_def)

theorem failed_lookup_halts_witness:
  "trace (fst (run_alone 1 (run_workflow_loop (quiet_env NotFound None)
       ((idle_app [Image ''/home/u/pics/ok.png'' 0, Mouse ''Click'' 1 1 0])\<lparr> is_running := True \<rparr>))))
     = [SelectionSet 0, Sleep 0,
        Leaf (Image ''/home/u/pics/ok.png'' 0)
          [LocateCenterOnScreen ''/home/u/pics/ok.png'' NotFound]] \<and>
   returned (snd (run_alone 1 (run_workflow_loop (quiet_env NotFound None)
       ((idle_app [Image ''/home/u/pics/ok.png'' 0, Mouse ''Click'' 1 1 0])\<lparr> is_running := True \<rparr>)))) \<and>
   \<not> is_running (fst (run_alone 1 (run_workflow_loop (quiet_env NotFound None)
       ((idle_app [Image ''/home/u/pics/ok.png'' 0, Mouse ''Click'' 1 1 0])\<lparr> is_running := True \<rparr>)))) \<and>
   status_var (fst (run_alone 1 (run_workflow_loop (quiet_env NotFound None)
       ((idle_app [Image ''/home/u/pics/ok.png'' 0, Mouse ''Click'' 1 1 0])\<lparr> is_running := True \<rparr>))))
     = ''Status: Image not found '' @ [CHR 0x27] @ ''ok.png'' @ [CHR 0x27]"
proof -
  let ?E = "quiet_env NotFound None"
  let ?s = "(idle_app [Image ''/home/u/pics/ok.png'' 0, Mouse ''Click'' 1 1 0])\<lparr> is_running := True \<rparr>"
  let ?e = "Leaf (Image ''/home/u/pics/ok.png'' 0) [LocateCenterOnScreen ''/home/u/pics/ok.png'' NotFound]"
  obtain s1 k where first: "run_workflow_loop ?E ?s = (s1, Waiting (Asleep 0) k)"
    and s1: "trace s1 = [SelectionSet 0, Sleep 0]"
    and next1: "trace (fst (k s1)) = [SelectionSet 0, Sleep 0, ?e]"
    by (simp add: run_workflow_loop_def while_loop.simps toggle_run_def resume_def
      idle_system_def idle_app_def log_event_def sleep_def finish_def clean_up_def quiet_env_def)
  from failed_lookup_halts [of ?s ?E "[]" "[]"] first
  have "always failure_halts (Waiting (Asleep 0) k)" by simp
  then have "failure_halts s1 (k s1)" by (auto elim: always.cases)
  then have "returned (snd (k s1)) \<and> \<not> is_running (fst (k s1)) \<and>
             status_var (fst (k s1)) = failure_status ?e"
    using s1 next1 by (simp add: failure_halts_def halts_on_failure_def)
  then show ?thesis
    using first next1 by (simp add: image_not_found_status_def basename_def)
qed

section \<open>The conditional block\<close>

text \<open>
  C2, as stated, fails for a case whose value is empty: the empty text occurs in every
  text, so by containment alone the case is the first that matches, yet the block runs the
  else steps. Here the clipboard holds \<^verbatim>\<open>abc\<close>.
\<close>

theorem empty_value_case_counterexample:
  "first_containing ''abc'' [Case [] [Keyboard ''Type Text'' ''x'' 0]]
     = Some (Case [] [Keyboard ''Type Text'' ''x'' 0]) \<and>
   trace (shared (run_actions (quiet_env (Found 1 1) (Some ''abc''))
       [ClickRunButton, Resume 0, Resume 0, Resume 0]
       (idle_system [ConditionalRecord ''Clipboard'' [Case [] [Keyboard ''Type Text'' ''x'' 0]]
                       [Keyboard ''Type Text'' ''y'' 0] 0])))
     = [RunButtonClicked, SelectionSet 0, Sleep 0, ClipboardGet (Some ''abc''), Sleep 0,
        Leaf (Keyboard ''Type Text'' ''y'' 0) [Write ''y'']]"
  by (simp add: run_workflow_loop_def while_loop.simps toggle_run_def resume_def
      idle_system_def idle_app_def log_event_def sleep_def finish_def clean_up_def quiet_env_def
      first_containing_def execute_conditional_record_def source_text_of_def)

text \<open>
  C2, amended. A case matches when its value is not empty and occurs in the source text.
  While the run flag is set, the block reads the clipboard once and then behaves exactly
  as the loop over the selected sub-steps: those of the first case that matches, in the
  order of the cases, and then neither the else steps nor the steps of another case are
  run; or the else steps, when no case matches. If, further, the thread is left alone,
  every screen search succeeds and no delay of the selected sub-steps is negative, then
  after as many sleeps as there are selected sub-steps the code of the caller goes on,
  with the run flag set, and the leaf steps executed in between are exactly the leaf steps
  among the selected sub-steps, each once and in order.
\<close>

theorem conditional_first_match:
  assumes "is_running s"
    and "got = clipboard E (length (trace s))"
    and "sel = selected_steps (source_text_of got) cs es"
  shows "execute_conditional_record E (ConditionalRecord src cs es d) k s
           = sub_steps_loop E sel (\<lambda>r. k) (log_event (ClipboardGet got) s) \<and>
         ((\<forall>sub\<in>set sel. 0 \<le> delay_of sub) \<and> (\<forall>t p. \<exists>x y. locate E t p = Found x y) \<longrightarrow>
          (\<exists>s'. is_running s' \<and>
                executed (trace s') = executed (trace s) @ filter is_leaf sel \<and>
                (\<forall>m. run_alone (length sel + m)
                        (execute_conditional_record E (ConditionalRecord src cs es d) k s)
                      = run_alone m (k s'))))"
proof -
  let ?s0 = "log_event (ClipboardGet got) s"
  have eq: "execute_conditional_record E (ConditionalRecord src cs es d) k s
              = sub_steps_loop E sel (\<lambda>r. k) ?s0"
    using conditional_selected [OF assms(1)] assms(2,3) by simp
  have r0: "is_running ?s0" and e0: "executed (trace ?s0) = executed (trace s)"
    using assms(1) by (simp_all add: log_event_def executed_def)
  show ?thesis
  proof (intro conjI impI)
    show "execute_conditional_record E (ConditionalRecord src cs es d) k s
            = sub_steps_loop E sel (\<lambda>r. k) ?s0"
      by (rule eq)
  next
    assume h: "(\<forall>sub\<in>set sel. 0 \<le> delay_of sub) \<and> (\<forall>t p. \<exists>x y. locate E t p = Found x y)"
    from sub_steps_alone [OF r0, where subs = sel and E = E] h
    obtain s' where "is_running s'"
      "executed (trace s') = executed (trace ?s0) @ filter is_leaf sel"
      "\<And>k m. run_alone (length sel + m) (sub_steps_loop E sel k ?s0) = run_alone m (k False s')"
      by blast
    then show "\<exists>s'. is_running s' \<and>
                executed (trace s') = executed (trace s) @ filter is_leaf sel \<and>
                (\<forall>m. run_alone (length sel + m)
                        (execute_conditional_record E (ConditionalRecord src cs es d) k s)
                      = run_alone m (k s'))"
      using eq e0 by auto
  qed
qed

theorem conditional_first_match_witness:
  "selected_steps ''order shipped''
     [Case ''pending'' [Keyboard ''Type Text'' ''a'' 0],
      Case [] [Keyboard ''Type Text'' ''b'' 0],
      Case ''ship'' [Keyboard ''Type Text'' ''c'' 0, Mouse ''Click'' 3 4 0],
      Case ''order'' [Keyboard ''Type Text'' ''d'' 0]]
     [Keyboard ''Type Text'' ''e'' 0]
     = [Keyboard ''Type Text'' ''c'' 0, Mouse ''Click'' 3 4 0] \<and>
   executed (trace (fst (run_alone 2
     (execute_conditional_record (quiet_env (Found 1 1) (Some ''order shipped''))
        (ConditionalRecord ''Clipboard''
           [Case ''pending'' [Keyboard ''Type Text'' ''a'' 0],
            Case [] [Keyboard ''Type Text'' ''b'' 0],
            Case ''ship'' [Keyboard ''Type Text'' ''c'' 0, Mouse ''Click'' 3 4 0],
            Case ''order'' [Keyboard ''Type Text'' ''d'' 0]]
           [Keyboard ''Type Text'' ''e'' 0] 0)
        finish ((idle_app [])\<lparr> is_running := True \<rparr>)))))
     = [Keyboard ''Type Text'' ''c'' 0, Mouse ''Click'' 3 4 0]"
proof -
  let ?E = "quiet_env (Found 1 1) (Some ''order shipped'')"
  let ?cs = "[Case ''pending'' [Keyboard ''Type Text'' ''a'' 0],
      Case [] [Keyboard ''Type Text'' ''b'' 0],
      Case ''ship'' [Keyboard ''Type Text'' ''c'' 0, Mouse ''Click'' 3 4 0],
      Case ''order'' [Keyboard ''Type Text'' ''d'' 0]]"
  let ?es = "[Keyboard ''Type Text'' ''e'' 0]"
  let ?sel = "[Keyboard ''Type Text'' ''c'' 0, Mouse ''Click'' 3 4 0]"
  let ?s = "(idle_app [])\<lparr> is_running := True \<rparr>"
  have sel: "selected_steps ''order shipped'' ?cs ?es = ?sel"
    by (simp add: selected_steps_def first_match_def)
  have "is_running ?s" by simp
  moreover have "Some ''order shipped'' = clipboard ?E (length (trace ?s))"
    by (simp add: quiet_env_def)
  moreover have "?sel = selected_steps (source_text_of (Some ''order shipped'')) ?cs ?es"
    using sel by (simp add: source_text_of_def)
  ultimately have inst: "(\<forall>sub\<in>set ?sel. 0 \<le> delay_of sub) \<and> (\<forall>t p. \<exists>x y. locate ?E t p = Found x y) \<longrightarrow>
          (\<exists>s'. is_running s' \<and>
                executed (trace s') = executed (trace ?s) @ filter is_leaf ?sel \<and>
                (\<forall>m. run_alone (length ?sel + m)
                        (execute_conditional_record ?E (ConditionalRecord ''Clipboard'' ?cs ?es 0) finish ?s)
                      = run_alone m (finish s')))"
    by (rule conditional_first_match [THEN conjunct2])
  have "(\<forall>sub\<in>set ?sel. 0 \<le> delay_of sub) \<and> (\<forall>t p. \<exists>x y. locate ?E t p = Found x y)"
    by (simp add: quiet_env_def)
  with inst obtain s' where s': "executed (trace s') = executed (trace ?s) @ filter is_leaf ?sel"
    "\<And>m. run_alone (length ?sel + m)
            (execute_conditional_record ?E (ConditionalRecord ''Clipboard'' ?cs ?es 0) finish ?s)
          = run_alone m (finish s')"
    by blast
  from s'(2) [of 0] have "run_alone 2
            (execute_conditional_record ?E (ConditionalRecord ''Clipboard'' ?cs ?es 0) finish ?s)
          = finish s'" by (simp add: numeral_2_eq_2)
  then have "executed (trace (fst (run_alone 2
            (execute_conditional_record ?E (ConditionalRecord ''Clipboard'' ?cs ?es 0) finish ?s))))
      = executed (trace ?s) @ filter is_leaf ?sel"
    using s'(1) by (simp add: finish_def clean_up_def)
  then show ?thesis using sel by (simp add: idle_app_def executed_def)
qed

text \<open>
  C10. A case whose value is empty never matches: whatever the clipboard holds, whatever
  the state and whatever code follows, the block with such a case among its cases behaves
  as the block without it.
\<close>

theorem empty_value_never_matches:
  "execute_conditional_record E (ConditionalRecord src (pre @ Case [] sts # post) es d) k s
     = execute_conditional_record E (ConditionalRecord src (pre @ post) es d) k s"
  by (simp add: execute_conditional_record_def cases_loop_skip_empty)

section \<open>The loop block\<close>

text \<open>
  C3, as stated, fails for a body that holds a loop block or a conditional block: inside a
  body every step is given to \<^verbatim>\<open>execute_step\<close>, which has no branch for them. Here a
  loop of two iterations holds a loop of three iterations of one keyboard step: the run
  sleeps twice for the inner step, executes no leaf step and ends idle.
\<close>

theorem nested_container_counterexample:
  "trace (shared (run_actions (quiet_env (Found 1 1) None)
       [ClickRunButton, Resume 0, Resume 0, Resume 0, Resume 0]
       (idle_system [Loop 2 [Loop 3 [Keyboard ''Type Text'' ''x'' 0] 0] 0])))
     = [RunButtonClicked, SelectionSet 0, Sleep 0, Sleep 0, Sleep 0] \<and>
   map live (threads (run_actions (quiet_env (Found 1 1) None)
       [ClickRunButton, Resume 0, Resume 0, Resume 0, Resume 0]
       (idle_system [Loop 2 [Loop 3 [Keyboard ''Type Text'' ''x'' 0] 0] 0])))
     = [False] \<and>
   status_var (shared (run_actions (quiet_env (Found 1 1) None)
       [ClickRunButton, Resume 0, Resume 0, Resume 0, Resume 0]
       (idle_system [Loop 2 [Loop 3 [Keyboard ''Type Text'' ''x'' 0] 0] 0])))
     = ''Status: Idle''"
  by (simp add: run_workflow_loop_def while_loop.simps toggle_run_def resume_def
      idle_system_def idle_app_def log_event_def sleep_def finish_def clean_up_def quiet_env_def
      execute_loop_block_def numeral_2_eq_2)

text \<open>
  C3, amended. A loop block with count 0 does nothing at all and hands over to the code
  that follows it; in the main loop, with the run flag set, such a step costs its own
  delay and then, if the flag is still set, the loop goes on at the next step in the state
  as it is. More generally, if the thread is left alone, every screen search succeeds and
  no delay of a body step is negative, then after count times as many sleeps as the body
  has steps the code that follows the block goes on, with the run flag set, and the leaf
  steps executed in between are the leaf steps of the body, in order, count times over. A
  loop block or conditional block inside a body is not executed.
\<close>

theorem loop_block_repeats:
  assumes "is_running s"
  shows "execute_loop_block E (Loop 0 body d) k s = k s \<and>
         (pc < length flow \<and> flow ! pc = Loop 0 body d \<and> 0 \<le> d \<longrightarrow>
            while_loop E flow pc s =
              (log_event (Sleep d) (log_event (SelectionSet pc) s),
               Waiting (Asleep d)
                 (\<lambda>s1. if \<not> is_running s1 then finish s1 else while_loop E flow (pc + 1) s1))) \<and>
         ((\<forall>sub\<in>set body. 0 \<le> delay_of sub) \<and> (\<forall>t p. \<exists>x y. locate E t p = Found x y) \<longrightarrow>
            (\<exists>s'. is_running s' \<and>
                  executed (trace s')
                    = executed (trace s) @ concat (replicate (nat count) (filter is_leaf body)) \<and>
                  (\<forall>m. run_alone (nat count * length body + m)
                          (execute_loop_block E (Loop count body d) k s)
                        = run_alone m (k s'))))"
proof (intro conjI impI)
  show "execute_loop_block E (Loop 0 body d) k s = k s"
    by (simp add: execute_loop_block_def)
next
  assume "pc < length flow \<and> flow ! pc = Loop 0 body d \<and> 0 \<le> d"
  then show "while_loop E flow pc s =
              (log_event (Sleep d) (log_event (SelectionSet pc) s),
               Waiting (Asleep d)
                 (\<lambda>s1. if \<not> is_running s1 then finish s1 else while_loop E flow (pc + 1) s1))"
    using loop_zero_advances [OF assms, where pc = pc and flow = flow and body = body and d = d and E = E] by simp
next
  assume h: "(\<forall>sub\<in>set body. 0 \<le> delay_of sub) \<and> (\<forall>t p. \<exists>x y. locate E t p = Found x y)"
  from loop_iterations_alone [OF assms, where body = body and E = E and n = "nat count" and count = count and i = 0] h
  obtain s' where "is_running s'"
    "executed (trace s') = executed (trace s) @ concat (replicate (nat count) (filter is_leaf body))"
    "\<And>k m. run_alone (nat count * length body + m) (loop_iterations E count body 0 (nat count) k s)
             = run_alone m (k s')"
    by blast
  then show "\<exists>s'. is_running s' \<and>
                  executed (trace s')
                    = executed (trace s) @ concat (replicate (nat count) (filter is_leaf body)) \<and>
                  (\<forall>m. run_alone (nat count * length body + m)
                          (execute_loop_block E (Loop count body d) k s)
                        = run_alone m (k s'))"
    by (auto simp: execute_loop_block_def)
qed

theorem loop_block_repeats_witness:
  "execute_loop_block (quiet_env (Found 1 1) None)
       (Loop 0 [Keyboard ''Type Text'' ''a'' 0, Image ''b.png'' 0] 0.5) finish
       ((idle_app [])\<lparr> is_running := True \<rparr>)
     = finish ((idle_app [])\<lparr> is_running := True \<rparr>) \<and>
   trace (fst (run_alone 2 (while_loop (quiet_env (Found 1 1) None)
       [Loop 0 [Keyboard ''Type Text'' ''a'' 0, Image ''b.png'' 0] 0.5, Mouse ''Click'' 3 4 0] 0
       ((idle_app [])\<lparr> is_running := True \<rparr>))))
     = [SelectionSet 0, Sleep 0.5, SelectionSet 1, Sleep 0,
        Leaf (Mouse ''Click'' 3 4 0) [MoveTo 3 4, Click]] \<and>
   executed (trace (fst (run_alone 4 (execute_loop_block (quiet_env (Found 1 1) None)
       (Loop 2 [Keyboard ''Type Text'' ''a'' 0, Image ''b.png'' 0] 0.5) finish
       ((idle_app [])\<lparr> is_running := True \<rparr>)))))
     = [Keyboard ''Type Text'' ''a'' 0, Image ''b.png'' 0,
        Keyboard ''Type Text'' ''a'' 0, Image ''b.png'' 0]"
proof -
  let ?E = "quiet_env (Found 1 1) None"
  let ?body = "[Keyboard ''Type Text'' ''a'' 0, Image ''b.png'' 0]"
  let ?flow = "[Loop 0 ?body 0.5, Mouse ''Click'' 3 4 0]"
  let ?s = "(idle_app [])\<lparr> is_running := True \<rparr>"
  have run: "is_running ?s" by simp
  note inst = loop_block_repeats [OF run, where E = ?E and body = ?body and d = "0.5"
      and k = finish and pc = 0 and flow = ?flow and count = 2]
  have zero: "execute_loop_block ?E (Loop 0 ?body 0.5) finish ?s = finish ?s"
    using inst by blast
  have "0 < length ?flow \<and> ?flow ! 0 = Loop 0 ?body 0.5 \<and> (0::real) \<le> 0.5" by simp
  with inst have first: "while_loop ?E ?flow 0 ?s =
      (log_event (Sleep 0.5) (log_event (SelectionSet 0) ?s),
       Waiting (Asleep 0.5)
         (\<lambda>s1. if \<not> is_running s1 then finish s1 else while_loop ?E ?flow (0 + 1) s1))"
    by blast
  have advance: "trace (fst (run_alone 2 (while_loop ?E ?flow 0 ?s)))
      = [SelectionSet 0, Sleep 0.5, SelectionSet 1, Sleep 0,
         Leaf (Mouse ''Click'' 3 4 0) [MoveTo 3 4, Click]]"
    by (subst first)
      (simp add: numeral_2_eq_2 while_loop.simps idle_app_def log_event_def sleep_def
        finish_def clean_up_def)
  have "(\<forall>sub\<in>set ?body. 0 \<le> delay_of sub) \<and> (\<forall>t p. \<exists>x y. locate ?E t p = Found x y)"
    by (simp add: quiet_env_def)
  with inst obtain s' where s':
    "executed (trace s') = executed (trace ?s) @ concat (replicate (nat 2) (filter is_leaf ?body))"
    "\<And>m. run_alone (nat 2 * length ?body + m) (execute_loop_block ?E (Loop 2 ?body 0.5) finish ?s)
          = run_alone m (finish s')"
    by blast
  from s'(2) [of 0]
  have "run_alone 4 (execute_loop_block ?E (Loop 2 ?body 0.5) finish ?s) = finish s'"
    by simp
  then have "executed (trace (fst (run_alone 4 (execute_loop_block ?E (Loop 2 ?body 0.5) finish ?s))))
      = executed (trace ?s) @ concat (replicate (nat 2) (filter is_leaf ?body))"
    using s'(1) by (simp add: finish_def clean_up_def)
  then have many: "executed (trace (fst (run_alone 4
        (execute_loop_block ?E (Loop 2 ?body 0.5) finish ?s))))
      = ?body @ ?body"
    by (simp add: idle_app_def executed_def numeral_2_eq_2)
  from zero advance many show ?thesis by simp
qed

section \<open>Step construction\<close>

text \<open>
  C8, as stated, fails for delays: no dialog looks at the sign of a delay. A mouse step
  with the delay text \<^verbatim>\<open>-1\<close> is constructed and appended to the workflow, and so is a
  keyboard step with the delay text \<^verbatim>\<open>-0.5\<close>.
\<close>

theorem negative_delay_counterexample:
  "AddMouseStepDialog_apply decimal_builtins ''Click'' ''10'' ''20'' ''-1''
     = Some (Mouse ''Click'' 10 20 (- 1)) \<and>
   workflow (add_step (AddMouseStepDialog_apply decimal_builtins ''Click'' ''10'' ''20'' ''-1'')
               (idle_app []))
     = [Mouse ''Click'' 10 20 (- 1)] \<and>
   AddKeyboardStepDialog_apply decimal_builtins ''Type Text'' ''hi'' ''-0.5''
     = Some (Keyboard ''Type Text'' ''hi'' (- 0.5))"
  by (simp add: AddMouseStepDialog_apply_def AddKeyboardStepDialog_apply_def add_step_def
      idle_app_def decimal_builtins_def dec_int_def dec_float_def dec_unsigned_def dec_nat_def
      digit_of_def)

text \<open>
  C8, amended. Construction fails, and \<^verbatim>\<open>add_step\<close> leaves the application unchanged,
  when a coordinate or the delay of a mouse step is not a number, when the value of a
  keyboard step is empty or its delay is not a number, and when the repeat count of a loop
  is not an integer or is negative. A repeat count of zero is accepted. In every other
  case of a mouse or keyboard step the step is appended with the delay as entered,
  whatever its sign.
\<close>

theorem construction_validation:
  "(py_int B x_entry = None \<or> py_int B y_entry = None \<or> py_float B delay_entry = None \<longrightarrow>
      add_step (AddMouseStepDialog_apply B action x_entry y_entry delay_entry) s = s) \<and>
   (value_entry = [] \<or> py_float B delay_entry = None \<longrightarrow>
      add_step (AddKeyboardStepDialog_apply B action value_entry delay_entry) s = s) \<and>
   (py_int B count_entry = None \<or> (\<exists>n. py_int B count_entry = Some n \<and> n < 0) \<longrightarrow>
      add_step (AddLoopDialog_apply B count_entry body init_delay) s = s) \<and>
   (py_int B count_entry = Some 0 \<longrightarrow>
      workflow (add_step (AddLoopDialog_apply B count_entry body init_delay) s)
        = workflow s @ [Loop 0 body (case init_delay of None \<Rightarrow> 0.1 | Some d \<Rightarrow> d)]) \<and>
   (py_int B x_entry = Some x \<and> py_int B y_entry = Some y \<and> py_float B delay_entry = Some d \<longrightarrow>
      workflow (add_step (AddMouseStepDialog_apply B action x_entry y_entry delay_entry) s)
        = workflow s @ [Mouse action x y d]) \<and>
   (value_entry \<noteq> [] \<and> py_float B delay_entry = Some d \<longrightarrow>
      workflow (add_step (AddKeyboardStepDialog_apply B action value_entry delay_entry) s)
        = workflow s @ [Keyboard action value_entry d])"
  by (auto simp: AddMouseStepDialog_apply_def AddKeyboardStepDialog_apply_def
      AddLoopDialog_apply_def add_step_def split: option.splits)

theorem construction_validation_witness:
  "py_int decimal_builtins ''ten'' = None \<and>
   add_step (AddMouseStepDialog_apply decimal_builtins ''Click'' ''ten'' ''20'' ''0.1'')
     (idle_app []) = idle_app [] \<and>
   add_step (AddKeyboardStepDialog_apply decimal_builtins ''Type Text'' [] ''0.1'')
     (idle_app []) = idle_app [] \<and>
   py_int decimal_builtins ''-2'' = Some (- 2) \<and>
   add_step (AddLoopDialog_apply decimal_builtins ''-2'' [] None) (idle_app []) = idle_app [] \<and>
   py_int decimal_builtins ''0'' = Some 0 \<and>
   workflow (add_step (AddLoopDialog_apply decimal_builtins ''0'' [] None) (idle_app []))
     = [Loop 0 [] 0.1] \<and>
   py_float decimal_builtins ''-1'' = Some (- 1) \<and>
   workflow (add_step (AddMouseStepDialog_apply decimal_builtins ''Click'' ''10'' ''20'' ''-1'')
               (idle_app []))
     = [Mouse ''Click'' 10 20 (- 1)] \<and>
   workflow (add_step (AddKeyboardStepDialog_apply decimal_builtins ''Type Text'' ''hi'' ''-1'')
               (idle_app []))
     = [Keyboard ''Type Text'' ''hi'' (- 1)]"
proof -
  have ints: "py_int decimal_builtins ''ten'' = None"
    "py_int decimal_builtins ''-2'' = Some (- 2)"
    "py_int decimal_builtins ''0'' = Some 0"
    "py_int decimal_builtins ''10'' = Some 10"
    "py_int decimal_builtins ''20'' = Some 20"
    by (simp_all add: decimal_builtins_def dec_int_def dec_nat_def digit_of_def)
  have floats: "py_float decimal_builtins ''-1'' = Some (- 1)"
    by (simp add: decimal_builtins_def dec_float_def dec_unsigned_def dec_nat_def digit_of_def)
  have flow: "workflow (idle_app []) = []"
    by (simp add: idle_app_def)
  note inst = construction_validation [where B = decimal_builtins and s = "idle_app []"
      and body = "[]" and init_delay = None and action = "''Click''"
      and delay_entry = "''-1''" and d = "- 1" and x = 10 and y = 20]
  from inst [where x_entry = "''ten''" and y_entry = "''20''" and value_entry = "[]"
        and count_entry = "''-2''"]
    inst [where x_entry = "''10''" and y_entry = "''20''" and value_entry = "''hi''"
        and count_entry = "''0''"]
    construction_validation [where B = decimal_builtins and s = "idle_app []"
      and action = "''Click''" and x_entry = "''ten''" and y_entry = "''20''"
      and delay_entry = "''0.1''"]
    construction_validation [where B = decimal_builtins and s = "idle_app []"
      and action = "''Type Text''" and value_entry = "[]" and delay_entry = "''0.1''"]
    construction_validation [where B = decimal_builtins and s = "idle_app []"
      and action = "''Type Text''" and value_entry = "''hi''" and delay_entry = "''-1''"
      and d = "- 1"]
  show ?thesis
    by (simp add: ints floats flow)
qed

end
